theory Spec2Isabelle
  imports Main "HOL-Library.Sublist"
begin

section \<open>Dictionary-based IO transforms (monai/transforms/io/dictionary.py)\<close>

text \<open>
  The module wraps the array transforms \<open>LoadImage\<close> and \<open>SaveImage\<close> into the
  dictionary transforms \<open>LoadImaged\<close> and \<open>SaveImaged\<close>. Both subclass
  \<open>MapTransform\<close>; their \<open>__call__\<close> copies the incoming mapping with
  \<open>dict(data)\<close>, walks \<open>self.key_iterator(d)\<close> and hands \<open>d[key]\<close> to the wrapped
  transform.

  Python objects that are mutated are kept in an explicit store: a list of dictionaries,
  a reference being an index into it. Exceptions are values of the type \<open>exn\<close>; a
  call returns \<open>Inl\<close> of the exception raised or \<open>Inr\<close> of the value returned. The wrapped
  transforms live in monai/transforms/io/array.py; they are parameters of the model: a
  function from the transform object's state and the arguments to the outcome and the
  new state of the transform object.
\<close>

subsection \<open>Exceptions, dictionaries and the store\<close>

datatype ('k, 'e) exn = KeyError 'k | TypeError | RuntimeError | Other 'e

type_synonym ('k, 'v) dict = "'k \<rightharpoonup> 'v"

type_synonym ('k, 'v) heap = "('k, 'v) dict list"

type_synonym ref = nat

text \<open>
  \<open>d = dict(data)\<close>: a new dictionary object with the entries of \<open>data\<close> (the values
  are shared, not copied). A \<open>data\<close> that is no mapping makes \<open>dict\<close> raise.
\<close>

definition dict_copy :: "ref \<Rightarrow> ('k, 'v) heap \<Rightarrow> ('k, 'e) exn + (ref \<times> ('k, 'v) heap)" where
  "dict_copy data h =
     (if data < length h then Inr (length h, h @ [h ! data]) else Inl TypeError)"

subsection \<open>MapTransform\<close>

record 'k MapTransform =
  keys :: "'k list"
  allow_missing_keys :: bool

text \<open>
  Modelled from the spec: \<open>MapTransform.__init__\<close> (monai/transforms/transform.py is not
  among the sources). It stores the key collection, fixed from then on, and the
  allow-missing flag.
\<close>

definition MapTransform_init :: "'k list \<Rightarrow> bool \<Rightarrow> 'k MapTransform" where
  "MapTransform_init ks amk = \<lparr>keys = ks, allow_missing_keys = amk\<rparr>"

text \<open>
  Modelled from the spec: \<open>MapTransform.key_iterator\<close> (not among the sources). The
  iterator walks the configured keys in their order; for each one it yields the key when
  the dictionary has it, raises the missing-key error when it has not and missing keys
  are not allowed, and skips it otherwise. It is a generator: the test for a key is made
  when the loop asks for the next key, on the dictionary as it is then. \<open>key_iterator\<close>
  is what the generator does for one key.
\<close>

datatype ('k, 'e) iter_step = Yield | Skip | Raise "('k, 'e) exn"

definition key_iterator :: "bool \<Rightarrow> ('k, 'v) dict \<Rightarrow> 'k \<Rightarrow> ('k, 'e) iter_step" where
  "key_iterator amk d key =
     (if d key \<noteq> None then Yield
      else if \<not> amk then Raise (KeyError key)
      else Skip)"

subsection \<open>LoadImaged\<close>

record ('k, 'w) LoadImaged = "'k MapTransform" +
  loader :: 'w

text \<open>
  \<open>__init__\<close>: \<open>super().__init__(keys, allow_missing_keys)\<close> and
  \<open>self._loader = LoadImage(reader, dtype, ensure_channel_first, *args, **kwargs)\<close>.
  \<open>LoadImage_init\<close> is the constructor of the wrapped transform. The parameters
  \<open>meta_keys\<close>, \<open>meta_key_postfix\<close>, \<open>overwriting\<close> and \<open>image_only\<close> are accepted
  and not used.
\<close>

definition LoadImaged_init ::
  "('r option \<Rightarrow> 'dt \<Rightarrow> bool \<Rightarrow> 'args \<Rightarrow> 'kwargs \<Rightarrow> 'w) \<Rightarrow>
   'k list \<Rightarrow> 'r option \<Rightarrow> 'dt \<Rightarrow> 'k list option \<Rightarrow> string \<Rightarrow> bool \<Rightarrow> bool \<Rightarrow> bool \<Rightarrow> bool \<Rightarrow>
   'args \<Rightarrow> 'kwargs \<Rightarrow> ('k, 'w) LoadImaged" where
  "LoadImaged_init LoadImage_init ks reader dtype meta_keys meta_key_postfix overwriting
      image_only ensure_channel_first amk args kwargs =
     MapTransform.extend (MapTransform_init ks amk)
       (LoadImaged.fields (LoadImage_init reader dtype ensure_channel_first args kwargs))"

text \<open>\<open>register\<close>: \<open>self._loader.register(reader)\<close>.\<close>

definition LoadImaged_register ::
  "('w \<Rightarrow> 'r \<Rightarrow> 'w) \<Rightarrow> ('k, 'w) LoadImaged \<Rightarrow> 'r \<Rightarrow> ('k, 'w) LoadImaged" where
  "LoadImaged_register LoadImage_register self reader =
     self\<lparr>loader := LoadImage_register (loader self) reader\<rparr>"

text \<open>
  The loop of \<open>__call__\<close>: \<open>for key in self.key_iterator(d): d[key] = self._loader(d[key], reader)\<close>.
  \<open>d\<close> is the reference of the copy, \<open>h\<close> the store, \<open>w\<close> the state of the loader object.
  The result is the outcome (the exception, or the reference returned), the store and
  the loader's state as the loop leaves them.
\<close>

fun LoadImaged_loop ::
  "('w \<Rightarrow> 'v \<Rightarrow> 'r option \<Rightarrow> (('k, 'e) exn + 'v) \<times> 'w) \<Rightarrow> bool \<Rightarrow> 'r option \<Rightarrow> ref \<Rightarrow>
   'k list \<Rightarrow> ('k, 'v) heap \<Rightarrow> 'w \<Rightarrow> (('k, 'e) exn + ref) \<times> ('k, 'v) heap \<times> 'w" where
  "LoadImaged_loop LoadImage_call amk reader d [] h w = (Inr d, h, w)"
| "LoadImaged_loop LoadImage_call amk reader d (key # rest) h w =
     (case key_iterator amk (h ! d) key of
        Raise x \<Rightarrow> (Inl x, h, w)
      | Skip \<Rightarrow> LoadImaged_loop LoadImage_call amk reader d rest h w
      | Yield \<Rightarrow>
          (case (h ! d) key of
             None \<Rightarrow> (Inl (KeyError key), h, w)
           | Some v \<Rightarrow>
               (case LoadImage_call w v reader of
                  (Inl x, w') \<Rightarrow> (Inl x, h, w')
                | (Inr v', w') \<Rightarrow>
                    LoadImaged_loop LoadImage_call amk reader d rest
                      (h[d := (h ! d)(key \<mapsto> v')]) w')))"

definition LoadImaged_call ::
  "('w \<Rightarrow> 'v \<Rightarrow> 'r option \<Rightarrow> (('k, 'e) exn + 'v) \<times> 'w) \<Rightarrow> ('k, 'w) LoadImaged \<Rightarrow> ref \<Rightarrow>
   'r option \<Rightarrow> ('k, 'v) heap \<Rightarrow> (('k, 'e) exn + ref) \<times> ('k, 'v) heap \<times> ('k, 'w) LoadImaged" where
  "LoadImaged_call LoadImage_call self data reader h =
     (case dict_copy data h of
        Inl x \<Rightarrow> (Inl x, h, self)
      | Inr (d, h0) \<Rightarrow>
          (case LoadImaged_loop LoadImage_call (allow_missing_keys self) reader d (keys self) h0
                  (loader self) of
             (res, h', w') \<Rightarrow> (res, h', self\<lparr>loader := w'\<rparr>)))"

text \<open>
  The loader invoked directly on a list of values, one after the other, as a caller
  without the dictionary wrapper would: the results in order, or the first exception.
  This is the reference that \<open>LoadImaged.__call__\<close> is compared with.
\<close>

fun LoadImage_calls ::
  "('w \<Rightarrow> 'v \<Rightarrow> 'r option \<Rightarrow> (('k, 'e) exn + 'v) \<times> 'w) \<Rightarrow> 'w \<Rightarrow> 'v list \<Rightarrow> 'r option \<Rightarrow>
   (('k, 'e) exn + 'v list) \<times> 'w" where
  "LoadImage_calls LoadImage_call w [] reader = (Inr [], w)"
| "LoadImage_calls LoadImage_call w (v # vs) reader =
     (case LoadImage_call w v reader of
        (Inl x, w') \<Rightarrow> (Inl x, w')
      | (Inr v', w') \<Rightarrow>
          (case LoadImage_calls LoadImage_call w' vs reader of
             (Inl x, w'') \<Rightarrow> (Inl x, w'')
           | (Inr vs', w'') \<Rightarrow> (Inr (v' # vs'), w'')))"

subsection \<open>SaveImaged\<close>

record ('k, 'w) SaveImaged = "'k MapTransform" +
  saver :: 'w

text \<open>The keyword arguments that \<open>__init__\<close> hands to \<open>SaveImage\<close>.\<close>

record ('dt, 'wr) SaveImage_kwargs =
  output_dir :: string
  output_postfix :: string
  output_ext :: string
  resample :: bool
  mode :: string
  padding_mode :: string
  scale :: "int option"
  dtype :: 'dt
  output_dtype :: 'dt
  squeeze_end_dims :: bool
  data_root_dir :: string
  separate_folder :: bool
  print_log :: bool
  output_format :: string
  writer :: "'wr option"

text \<open>
  \<open>__init__\<close>: \<open>super().__init__(keys, allow_missing_keys)\<close> and
  \<open>self.saver = SaveImage(output_dir=output_dir, ..., writer=writer)\<close>. The parameters
  \<open>meta_keys\<close> and \<open>meta_key_postfix\<close> are accepted and not used.
\<close>

definition SaveImaged_init ::
  "(('dt, 'wr) SaveImage_kwargs \<Rightarrow> 'w) \<Rightarrow>
   'k list \<Rightarrow> 'k list option \<Rightarrow> string \<Rightarrow> string \<Rightarrow> string \<Rightarrow> string \<Rightarrow> bool \<Rightarrow> string \<Rightarrow> string \<Rightarrow>
   int option \<Rightarrow> 'dt \<Rightarrow> 'dt \<Rightarrow> bool \<Rightarrow> bool \<Rightarrow> string \<Rightarrow> bool \<Rightarrow> bool \<Rightarrow> string \<Rightarrow> 'wr option \<Rightarrow>
   ('k, 'w) SaveImaged" where
  "SaveImaged_init SaveImage_init ks meta_keys meta_key_postfix output_dir' output_postfix'
      output_ext' resample' mode' padding_mode' scale' dtype' output_dtype' amk
      squeeze_end_dims' data_root_dir' separate_folder' print_log' output_format' writer' =
     MapTransform.extend (MapTransform_init ks amk)
       (SaveImaged.fields
          (SaveImage_init
             \<lparr>output_dir = output_dir', output_postfix = output_postfix',
              output_ext = output_ext', resample = resample', mode = mode',
              padding_mode = padding_mode', scale = scale', dtype = dtype',
              output_dtype = output_dtype', squeeze_end_dims = squeeze_end_dims',
              data_root_dir = data_root_dir', separate_folder = separate_folder',
              print_log = print_log', output_format = output_format', writer = writer'\<rparr>))"

text \<open>
  The loop of \<open>__call__\<close>: \<open>for key in self.key_iterator(d): self.saver(img=d[key])\<close>. What
  the saver returns is dropped.
\<close>

fun SaveImaged_loop ::
  "('w \<Rightarrow> 'v \<Rightarrow> (('k, 'e) exn + 'v) \<times> 'w) \<Rightarrow> bool \<Rightarrow> ref \<Rightarrow>
   'k list \<Rightarrow> ('k, 'v) heap \<Rightarrow> 'w \<Rightarrow> (('k, 'e) exn + ref) \<times> ('k, 'v) heap \<times> 'w" where
  "SaveImaged_loop SaveImage_call amk d [] h w = (Inr d, h, w)"
| "SaveImaged_loop SaveImage_call amk d (key # rest) h w =
     (case key_iterator amk (h ! d) key of
        Raise x \<Rightarrow> (Inl x, h, w)
      | Skip \<Rightarrow> SaveImaged_loop SaveImage_call amk d rest h w
      | Yield \<Rightarrow>
          (case (h ! d) key of
             None \<Rightarrow> (Inl (KeyError key), h, w)
           | Some v \<Rightarrow>
               (case SaveImage_call w v of
                  (Inl x, w') \<Rightarrow> (Inl x, h, w')
                | (Inr _, w') \<Rightarrow> SaveImaged_loop SaveImage_call amk d rest h w')))"

definition SaveImaged_call ::
  "('w \<Rightarrow> 'v \<Rightarrow> (('k, 'e) exn + 'v) \<times> 'w) \<Rightarrow> ('k, 'w) SaveImaged \<Rightarrow> ref \<Rightarrow>
   ('k, 'v) heap \<Rightarrow> (('k, 'e) exn + ref) \<times> ('k, 'v) heap \<times> ('k, 'w) SaveImaged" where
  "SaveImaged_call SaveImage_call self data h =
     (case dict_copy data h of
        Inl x \<Rightarrow> (Inl x, h, self)
      | Inr (d, h0) \<Rightarrow>
          (case SaveImaged_loop SaveImage_call (allow_missing_keys self) d (keys self) h0
                  (saver self) of
             (res, h', w') \<Rightarrow> (res, h', self\<lparr>saver := w'\<rparr>)))"

subsection \<open>LoadImage and its readers\<close>

text \<open>
  Modelled from the spec: the class \<open>LoadImage\<close> and the readers
  (monai/transforms/io/array.py and monai/data/image_reader.py are not among the
  sources). A reader says whether it supports an input and reads it. The loader holds the
  list of registered readers; \<open>register\<close> adds a reader at its end.
\<close>

record ('k, 'v, 'e) ImageReader =
  verify_suffix :: "'v \<Rightarrow> bool"
  read :: "'v \<Rightarrow> ('k, 'e) exn + 'v"

record ('k, 'v, 'e) LoadImage =
  readers :: "('k, 'v, 'e) ImageReader list"

definition LoadImage_register ::
  "('k, 'v, 'e) LoadImage \<Rightarrow> ('k, 'v, 'e) ImageReader \<Rightarrow> ('k, 'v, 'e) LoadImage" where
  "LoadImage_register ld reader = ld\<lparr>readers := readers ld @ [reader]\<rparr>"

text \<open>
  Modelled from the spec: \<open>LoadImage.__call__\<close>. A reader given with the call is the one
  used. Otherwise the candidates are the registered readers from the last registered to
  the first, and the first candidate that supports the input reads it; when no candidate
  accepts the input, the backend-resolution error is raised. The call leaves the loader
  object as it was.
\<close>

definition LoadImage_call ::
  "('k, 'v, 'e) LoadImage \<Rightarrow> 'v \<Rightarrow> ('k, 'v, 'e) ImageReader option \<Rightarrow>
   (('k, 'e) exn + 'v) \<times> ('k, 'v, 'e) LoadImage" where
  "LoadImage_call ld filename reader =
     (case reader of
        Some r \<Rightarrow> (read r filename, ld)
      | None \<Rightarrow>
          (case find (\<lambda>r. verify_suffix r filename) (rev (readers ld)) of
             None \<Rightarrow> (Inl RuntimeError, ld)
           | Some r \<Rightarrow> (read r filename, ld)))"

subsection \<open>Recording what the wrapped transform is given\<close>

text \<open>
  A wrapped transform that, besides doing what the given one does, keeps a list of its
  invocations in its state: the loader each value it is invoked on with the answer it
  gave, the saver each value it is invoked on. The order of the invocations made by a
  call can be read from the list.
\<close>

definition recording_loader ::
  "('w \<Rightarrow> 'v \<Rightarrow> 'r option \<Rightarrow> (('k, 'e) exn + 'v) \<times> 'w) \<Rightarrow>
   'w \<times> ('v \<times> (('k, 'e) exn + 'v)) list \<Rightarrow> 'v \<Rightarrow> 'r option \<Rightarrow>
   (('k, 'e) exn + 'v) \<times> ('w \<times> ('v \<times> (('k, 'e) exn + 'v)) list)" where
  "recording_loader L wl v reader =
     (case L (fst wl) v reader of (res, w') \<Rightarrow> (res, (w', snd wl @ [(v, res)])))"

definition recording_saver ::
  "('w \<Rightarrow> 'v \<Rightarrow> (('k, 'e) exn + 'v) \<times> 'w) \<Rightarrow>
   'w \<times> 'v list \<Rightarrow> 'v \<Rightarrow> (('k, 'e) exn + 'v) \<times> ('w \<times> 'v list)" where
  "recording_saver S wl v =
     (case S (fst wl) v of (res, w') \<Rightarrow> (res, (w', snd wl @ [v])))"

text \<open>
  The values a loader is to be handed when the keys are processed from first to last,
  given the answers it gives in turn: for a key the record has, the value the record has
  there at that moment; after an answer \<open>v'\<close> the record has \<open>v'\<close> at that key; nothing is
  handed over after an answer that is an exception, nor after a key the record lacks when
  missing keys are not allowed.
\<close>

fun handed_over :: "bool \<Rightarrow> 'k list \<Rightarrow> ('k, 'v) dict \<Rightarrow> ('x + 'v) list \<Rightarrow> 'v list" where
  "handed_over amk [] d answers = []"
| "handed_over amk (key # rest) d answers =
     (case d key of
        None \<Rightarrow> if amk then handed_over amk rest d answers else []
      | Some v \<Rightarrow>
          v # (case answers of
                 Inr v' # answers' \<Rightarrow> handed_over amk rest (d(key \<mapsto> v')) answers'
               | _ \<Rightarrow> []))"

section \<open>The loops and the store\<close>

lemma key_iterator_cases:
  "key_iterator amk d key =
     (case d key of Some v \<Rightarrow> Yield | None \<Rightarrow> if amk then Skip else Raise (KeyError key))"
  by (simp add: key_iterator_def split: option.split)

lemma SaveImaged_loop_heap:
  "SaveImaged_loop S amk d ks h w = (res, h', w') \<Longrightarrow> h' = h"
  by (induction ks arbitrary: w)
     (auto simp: key_iterator_cases split: option.splits if_splits sum.splits prod.splits)

lemma SaveImaged_loop_ref:
  "SaveImaged_loop S amk d ks h w = (Inr r, h', w') \<Longrightarrow> r = d"
  by (induction ks arbitrary: w)
     (auto simp: key_iterator_cases split: option.splits if_splits sum.splits prod.splits)

lemma LoadImaged_loop_ref:
  "LoadImaged_loop L amk rd d ks h w = (Inr r, h', w') \<Longrightarrow> r = d"
  by (induction ks arbitrary: h w)
     (auto simp: key_iterator_cases split: option.splits if_splits sum.splits prod.splits)

lemma LoadImaged_loop_length:
  "LoadImaged_loop L amk rd d ks h w = (res, h', w') \<Longrightarrow> length h' = length h"
  by (induction ks arbitrary: h w)
     (auto simp: key_iterator_cases split: option.splits if_splits sum.splits prod.splits)

lemma LoadImaged_loop_others:
  "LoadImaged_loop L amk rd d ks h w = (res, h', w') \<Longrightarrow> a \<noteq> d \<Longrightarrow> h' ! a = h ! a"
  by (induction ks arbitrary: h w)
     (auto simp: key_iterator_cases split: option.splits if_splits sum.splits prod.splits)

lemma LoadImaged_loop_frame:
  "LoadImaged_loop L amk rd d ks h w = (res, h', w') \<Longrightarrow> d < length h \<Longrightarrow> k \<notin> set ks \<Longrightarrow>
   (h' ! d) k = (h ! d) k"
  by (induction ks arbitrary: h w)
     (auto simp: key_iterator_cases split: option.splits if_splits sum.splits prod.splits)

text \<open>
  With every configured key present and no key configured twice, the loop is the direct
  invocation of the loader on the values the dictionary had when the loop started.
\<close>

lemma LoadImage_calls_length:
  "LoadImage_calls L w vs rd = (Inr vs', w') \<Longrightarrow> length vs' = length vs"
  by (induction vs arbitrary: w vs') (auto split: prod.splits sum.splits)

lemma LoadImaged_loop_loads:
  assumes "d < length h" and "distinct ks" and "\<forall>k\<in>set ks. (h ! d) k \<noteq> None"
    and "LoadImage_calls L w (map (\<lambda>k. the ((h ! d) k)) ks) rd = (Inr vs, w')"
  shows "LoadImaged_loop L amk rd d ks h w = (Inr d, h[d := (h ! d)(ks [\<mapsto>] vs)], w')"
  using assms
proof (induction ks arbitrary: h w vs)
  case Nil
  then show ?case by simp
next
  case (Cons k rest)
  from Cons.prems(3) obtain v where v: "(h ! d) k = Some v" by auto
  from Cons.prems(4) v obtain v' w1 vs' where
    call: "L w v rd = (Inr v', w1)" and
    calls: "LoadImage_calls L w1 (map (\<lambda>k. the ((h ! d) k)) rest) rd = (Inr vs', w')" and
    vs: "vs = v' # vs'"
    by (auto split: prod.splits sum.splits)
  let ?h1 = "h[d := (h ! d)(k \<mapsto> v')]"
  from Cons.prems(1) have h1: "?h1 ! d = (h ! d)(k \<mapsto> v')" by simp
  from Cons.prems(2) have same: "map (\<lambda>k. the ((?h1 ! d) k)) rest = map (\<lambda>k. the ((h ! d) k)) rest"
    using h1 by auto
  have "LoadImaged_loop L amk rd d rest ?h1 w1 = (Inr d, ?h1[d := (?h1 ! d)(rest [\<mapsto>] vs')], w')"
  proof (rule Cons.IH)
    from Cons.prems(1) show "d < length ?h1" by simp
    from Cons.prems(2) show "distinct rest" by simp
    from Cons.prems(3) h1 show "\<forall>k\<in>set rest. (?h1 ! d) k \<noteq> None" by auto
    from calls show "LoadImage_calls L w1 (map (\<lambda>k. the ((?h1 ! d) k)) rest) rd = (Inr vs', w')"
      by (simp only: same)
  qed
  with v call vs h1 show ?case by (simp add: key_iterator_cases)
qed

lemma LoadImaged_loop_load_fails:
  assumes "d < length h" and "distinct ks" and "\<forall>k\<in>set ks. (h ! d) k \<noteq> None"
    and "LoadImage_calls L w (map (\<lambda>k. the ((h ! d) k)) ks) rd = (Inl x, w')"
  shows "\<exists>h'. LoadImaged_loop L amk rd d ks h w = (Inl x, h', w')"
  using assms
proof (induction ks arbitrary: h w)
  case Nil
  then show ?case by simp
next
  case (Cons k rest)
  from Cons.prems(3) obtain v where v: "(h ! d) k = Some v" by auto
  obtain r1 w1 where call: "L w v rd = (r1, w1)" by (cases "L w v rd") auto
  show ?case
  proof (cases r1)
    case (Inl y)
    with Cons.prems(4) v call show ?thesis by (simp add: key_iterator_cases)
  next
    case (Inr v')
    let ?h1 = "h[d := (h ! d)(k \<mapsto> v')]"
    from Cons.prems(1) have h1: "?h1 ! d = (h ! d)(k \<mapsto> v')" by simp
    from Cons.prems(2) have same: "map (\<lambda>k. the ((?h1 ! d) k)) rest = map (\<lambda>k. the ((h ! d) k)) rest"
      using h1 by auto
    from Cons.prems(4) v call Inr
    have calls: "LoadImage_calls L w1 (map (\<lambda>k. the ((h ! d) k)) rest) rd = (Inl x, w')"
      by (auto split: prod.splits sum.splits)
    have "\<exists>h'. LoadImaged_loop L amk rd d rest ?h1 w1 = (Inl x, h', w')"
    proof (rule Cons.IH)
      from Cons.prems(1) show "d < length ?h1" by simp
      from Cons.prems(2) show "distinct rest" by simp
      from Cons.prems(3) h1 show "\<forall>k\<in>set rest. (?h1 ! d) k \<noteq> None" by auto
      from calls show "LoadImage_calls L w1 (map (\<lambda>k. the ((?h1 ! d) k)) rest) rd = (Inl x, w')"
        by (simp only: same)
    qed
    with v call Inr show ?thesis by (simp add: key_iterator_cases)
  qed
qed

lemma map_upds_distinct_nth:
  "length xs = length ys \<Longrightarrow> distinct xs \<Longrightarrow> i < length xs \<Longrightarrow>
   (m(xs [\<mapsto>] ys)) (xs ! i) = Some (ys ! i)"
proof (induction xs arbitrary: ys i m)
  case Nil
  then show ?case by simp
next
  case (Cons x xs)
  then obtain y ys' where ys: "ys = y # ys'" by (cases ys) auto
  show ?case
  proof (cases i)
    case 0
    with Cons.prems ys show ?thesis by (simp add: map_upds_apply_nontin)
  next
    case (Suc j)
    with Cons.prems ys have "((m(x \<mapsto> y))(xs [\<mapsto>] ys')) (xs ! j) = Some (ys' ! j)"
      by (intro Cons.IH) simp_all
    with Suc ys show ?thesis by simp
  qed
qed

text \<open>
  The loop over a list of keys is the loop over its first part followed, when that
  returns, by the loop over the rest on the store and the service state it left.
\<close>

lemma LoadImaged_loop_append:
  "LoadImaged_loop L amk rd d (ks1 @ ks2) h w =
     (case LoadImaged_loop L amk rd d ks1 h w of
        (Inl x, h1, w1) \<Rightarrow> (Inl x, h1, w1)
      | (Inr r, h1, w1) \<Rightarrow> LoadImaged_loop L amk rd d ks2 h1 w1)"
  by (induction ks1 arbitrary: h w)
     (auto simp: key_iterator_cases split: option.splits sum.splits prod.splits)

lemma SaveImaged_loop_append:
  "SaveImaged_loop S amk d (ks1 @ ks2) h w =
     (case SaveImaged_loop S amk d ks1 h w of
        (Inl x, h1, w1) \<Rightarrow> (Inl x, h1, w1)
      | (Inr r, h1, w1) \<Rightarrow> SaveImaged_loop S amk d ks2 h1 w1)"
  by (induction ks1 arbitrary: h w)
     (auto simp: key_iterator_cases split: option.splits sum.splits prod.splits)

lemma LoadImaged_loop_absent:
  "LoadImaged_loop L amk rd d ks h w = (res, h', w') \<Longrightarrow> d < length h \<Longrightarrow>
   ((h' ! d) k = None) = ((h ! d) k = None)"
  by (induction ks arbitrary: h w)
     (auto simp: key_iterator_cases split: option.splits if_splits sum.splits prod.splits)

text \<open>A configured key that the dictionary does not have: raised or skipped.\<close>

lemma LoadImaged_loop_missing:
  assumes "d < length h" and "(h ! d) key = None"
  shows "LoadImaged_loop L amk rd d (key # ks2) h w =
     (if amk then LoadImaged_loop L amk rd d ks2 h w else (Inl (KeyError key), h, w))"
  using assms by (simp add: key_iterator_cases)

lemma SaveImaged_loop_missing:
  assumes "(h ! d) key = None"
  shows "SaveImaged_loop S amk d (key # ks2) h w =
     (if amk then SaveImaged_loop S amk d ks2 h w else (Inl (KeyError key), h, w))"
  using assms by (simp add: key_iterator_cases)

lemma LoadImaged_loop_at_missing:
  assumes d: "d < length h" and miss: "(h ! d) key = None"
  shows "LoadImaged_loop L amk rd d (ks1 @ key # ks2) h w =
     (case LoadImaged_loop L amk rd d ks1 h w of
        (Inl x, h1, w1) \<Rightarrow> (Inl x, h1, w1)
      | (Inr r, h1, w1) \<Rightarrow>
          if amk then LoadImaged_loop L amk rd d ks2 h1 w1 else (Inl (KeyError key), h1, w1))"
proof -
  obtain res h1 w1 where loop: "LoadImaged_loop L amk rd d ks1 h w = (res, h1, w1)"
    using prod_cases3 by blast
  from loop d have "d < length h1" by (auto dest: LoadImaged_loop_length)
  moreover from loop d miss have "(h1 ! d) key = None" by (simp add: LoadImaged_loop_absent)
  ultimately have "LoadImaged_loop L amk rd d (key # ks2) h1 w1 =
      (if amk then LoadImaged_loop L amk rd d ks2 h1 w1 else (Inl (KeyError key), h1, w1))"
    by (rule LoadImaged_loop_missing)
  with loop show ?thesis by (simp add: LoadImaged_loop_append split: sum.splits)
qed

lemma SaveImaged_loop_at_missing:
  assumes miss: "(h ! d) key = None"
  shows "SaveImaged_loop S amk d (ks1 @ key # ks2) h w =
     (case SaveImaged_loop S amk d ks1 h w of
        (Inl x, h1, w1) \<Rightarrow> (Inl x, h1, w1)
      | (Inr r, h1, w1) \<Rightarrow>
          if amk then SaveImaged_loop S amk d ks2 h1 w1 else (Inl (KeyError key), h1, w1))"
proof -
  obtain res h1 w1 where loop: "SaveImaged_loop S amk d ks1 h w = (res, h1, w1)"
    using prod_cases3 by blast
  from loop have "h1 = h" by (rule SaveImaged_loop_heap)
  with miss have "(h1 ! d) key = None" by simp
  then have "SaveImaged_loop S amk d (key # ks2) h1 w1 =
      (if amk then SaveImaged_loop S amk d ks2 h1 w1 else (Inl (KeyError key), h1, w1))"
    by (rule SaveImaged_loop_missing)
  with loop show ?thesis by (simp add: SaveImaged_loop_append split: sum.splits)
qed

lemma LoadImaged_loop_skip:
  assumes "d < length h" and "(h ! d) key = None"
  shows "LoadImaged_loop L True rd d (ks1 @ key # ks2) h w =
         LoadImaged_loop L True rd d (ks1 @ ks2) h w"
  by (subst LoadImaged_loop_at_missing [OF assms])
     (simp add: LoadImaged_loop_append split: prod.splits sum.splits)

lemma SaveImaged_loop_skip:
  assumes "(h ! d) key = None"
  shows "SaveImaged_loop S True d (ks1 @ key # ks2) h w =
         SaveImaged_loop S True d (ks1 @ ks2) h w"
  by (subst SaveImaged_loop_at_missing [OF assms])
     (simp add: SaveImaged_loop_append split: prod.splits sum.splits)

lemma LoadImaged_loop_raises:
  assumes "d < length h" and "(h ! d) key = None" and "key \<in> set ks"
  shows "\<exists>x. fst (LoadImaged_loop L False rd d ks h w) = Inl x"
proof -
  from assms(3) obtain ks1 ks2 where "ks = ks1 @ key # ks2" by (auto dest: split_list)
  with LoadImaged_loop_at_missing [OF assms(1,2), of L False rd ks1 ks2 w] show ?thesis
    by (auto split: sum.splits prod.splits)
qed

lemma SaveImaged_loop_raises:
  assumes "(h ! d) key = None" and "key \<in> set ks"
  shows "\<exists>x. fst (SaveImaged_loop S False d ks h w) = Inl x"
proof -
  from assms(2) obtain ks1 ks2 where "ks = ks1 @ key # ks2" by (auto dest: split_list)
  with SaveImaged_loop_at_missing [OF assms(1), of S False ks1 ks2 w] show ?thesis
    by (auto split: sum.splits prod.splits)
qed

text \<open>\<open>__call__\<close> on a reference that is a dictionary of the store, and on one that is not.\<close>

lemma SaveImaged_call_valid:
  "data < length h \<Longrightarrow>
   SaveImaged_call S self data h =
     (case SaveImaged_loop S (allow_missing_keys self) (length h) (keys self) (h @ [h ! data])
             (saver self) of
        (res, h', w') \<Rightarrow> (res, h', self\<lparr>saver := w'\<rparr>))"
  by (simp add: SaveImaged_call_def dict_copy_def)

lemma SaveImaged_call_invalid:
  "\<not> data < length h \<Longrightarrow> SaveImaged_call S self data h = (Inl TypeError, h, self)"
  by (simp add: SaveImaged_call_def dict_copy_def)

lemma LoadImaged_call_valid:
  "data < length h \<Longrightarrow>
   LoadImaged_call L self data rd h =
     (case LoadImaged_loop L (allow_missing_keys self) rd (length h) (keys self) (h @ [h ! data])
             (loader self) of
        (res, h', w') \<Rightarrow> (res, h', self\<lparr>loader := w'\<rparr>))"
  by (simp add: LoadImaged_call_def dict_copy_def)

lemma LoadImaged_call_invalid:
  "\<not> data < length h \<Longrightarrow> LoadImaged_call L self data rd h = (Inl TypeError, h, self)"
  by (simp add: LoadImaged_call_def dict_copy_def)

lemma LoadImaged_call_loop:
  assumes "LoadImaged_call L self data rd h = (res, h', self')" and "data < length h"
  shows "\<exists>w'. LoadImaged_loop L (allow_missing_keys self) rd (length h) (keys self) (h @ [h ! data])
         (loader self) = (res, h', w') \<and> self' = self\<lparr>loader := w'\<rparr>"
proof -
  obtain r1 h1 w1 where
    loop: "LoadImaged_loop L (allow_missing_keys self) rd (length h) (keys self) (h @ [h ! data])
             (loader self) = (r1, h1, w1)"
    using prod_cases3 by blast
  from assms loop have "res = r1" "h' = h1" "self' = self\<lparr>loader := w1\<rparr>"
    by (simp_all add: LoadImaged_call_valid)
  with loop show ?thesis by blast
qed

lemma SaveImaged_call_loop:
  assumes "SaveImaged_call S self data h = (res, h', self')" and "data < length h"
  shows "\<exists>w'. SaveImaged_loop S (allow_missing_keys self) (length h) (keys self) (h @ [h ! data])
         (saver self) = (res, h', w') \<and> self' = self\<lparr>saver := w'\<rparr>"
proof -
  obtain r1 h1 w1 where
    loop: "SaveImaged_loop S (allow_missing_keys self) (length h) (keys self) (h @ [h ! data])
             (saver self) = (r1, h1, w1)"
    using prod_cases3 by blast
  from assms loop have "res = r1" "h' = h1" "self' = self\<lparr>saver := w1\<rparr>"
    by (simp_all add: SaveImaged_call_valid)
  with loop show ?thesis by blast
qed

lemma LoadImaged_call_raises:
  assumes "data < length h" and "(h ! data) key = None" and "key \<in> set (keys self)"
    and "\<not> allow_missing_keys self"
  shows "\<exists>x. fst (LoadImaged_call L self data rd h) = Inl x"
proof -
  have "\<exists>x. fst (LoadImaged_loop L False rd (length h) (keys self) (h @ [h ! data]) (loader self)) = Inl x"
    using assms(2,3) by (intro LoadImaged_loop_raises) simp_all
  with assms(1,4) show ?thesis by (auto simp: LoadImaged_call_valid split: prod.splits)
qed

lemma SaveImaged_call_raises:
  assumes "data < length h" and "(h ! data) key = None" and "key \<in> set (keys self)"
    and "\<not> allow_missing_keys self"
  shows "\<exists>x. fst (SaveImaged_call S self data h) = Inl x"
proof -
  have "\<exists>x. fst (SaveImaged_loop S False (length h) (keys self) (h @ [h ! data]) (saver self)) = Inl x"
    using assms(2,3) by (intro SaveImaged_loop_raises) simp_all
  with assms(1,4) show ?thesis by (auto simp: SaveImaged_call_valid split: prod.splits)
qed

lemma LoadImaged_call_KeyError:
  assumes "data < length h" and "(h ! data) key = None" and "\<not> allow_missing_keys self"
    and "LoadImaged_call L (self\<lparr>keys := ks1\<rparr>) data rd h = (Inr r, h1, self1)"
  shows "LoadImaged_call L (self\<lparr>keys := ks1 @ key # ks2\<rparr>) data rd h =
           (Inl (KeyError key), h1, self1\<lparr>keys := ks1 @ key # ks2\<rparr>)"
proof -
  let ?h0 = "h @ [h ! data]"
  from LoadImaged_call_loop [OF assms(4,1)] obtain w1 where
    loop: "LoadImaged_loop L (allow_missing_keys self) rd (length h) ks1 ?h0 (loader self) = (Inr r, h1, w1)"
    and self1: "self1 = self\<lparr>keys := ks1, loader := w1\<rparr>"
    by auto
  have "length h < length ?h0" and "(?h0 ! length h) key = None" using assms(2) by simp_all
  from LoadImaged_loop_at_missing [OF this, of L "allow_missing_keys self" rd ks1 ks2 "loader self"]
    loop assms(3)
  have "LoadImaged_loop L (allow_missing_keys self) rd (length h) (ks1 @ key # ks2) ?h0 (loader self) =
          (Inl (KeyError key), h1, w1)"
    by simp
  with assms(1) self1 show ?thesis by (simp add: LoadImaged_call_valid)
qed

lemma SaveImaged_call_KeyError:
  assumes "data < length h" and "(h ! data) key = None" and "\<not> allow_missing_keys self"
    and "SaveImaged_call S (self\<lparr>keys := ks1\<rparr>) data h = (Inr r, h1, self1)"
  shows "SaveImaged_call S (self\<lparr>keys := ks1 @ key # ks2\<rparr>) data h =
           (Inl (KeyError key), h1, self1\<lparr>keys := ks1 @ key # ks2\<rparr>)"
proof -
  let ?h0 = "h @ [h ! data]"
  from SaveImaged_call_loop [OF assms(4,1)] obtain w1 where
    loop: "SaveImaged_loop S (allow_missing_keys self) (length h) ks1 ?h0 (saver self) = (Inr r, h1, w1)"
    and self1: "self1 = self\<lparr>keys := ks1, saver := w1\<rparr>"
    by auto
  have "(?h0 ! length h) key = None" using assms(2) by simp
  from SaveImaged_loop_at_missing [OF this, of S "allow_missing_keys self" ks1 ks2 "saver self"]
    loop assms(3)
  have "SaveImaged_loop S (allow_missing_keys self) (length h) (ks1 @ key # ks2) ?h0 (saver self) =
          (Inl (KeyError key), h1, w1)"
    by simp
  with assms(1) self1 show ?thesis by (simp add: SaveImaged_call_valid)
qed

lemma LoadImaged_call_skip:
  assumes "data < length h" and "(h ! data) key = None" and "allow_missing_keys self"
  shows "LoadImaged_call L (self\<lparr>keys := ks1 @ key # ks2\<rparr>) data rd h =
     (case LoadImaged_call L (self\<lparr>keys := ks1 @ ks2\<rparr>) data rd h of
        (res, h', self') \<Rightarrow> (res, h', self'\<lparr>keys := ks1 @ key # ks2\<rparr>))"
proof -
  let ?h0 = "h @ [h ! data]"
  have "length h < length ?h0" and "(?h0 ! length h) key = None" using assms(2) by simp_all
  from LoadImaged_loop_skip [OF this, of L rd ks1 ks2 "loader self"] assms(1,3) show ?thesis
    by (simp add: LoadImaged_call_valid split: prod.splits)
qed

lemma SaveImaged_call_skip:
  assumes "data < length h" and "(h ! data) key = None" and "allow_missing_keys self"
  shows "SaveImaged_call S (self\<lparr>keys := ks1 @ key # ks2\<rparr>) data h =
     (case SaveImaged_call S (self\<lparr>keys := ks1 @ ks2\<rparr>) data h of
        (res, h', self') \<Rightarrow> (res, h', self'\<lparr>keys := ks1 @ key # ks2\<rparr>))"
proof -
  let ?h0 = "h @ [h ! data]"
  have "(?h0 ! length h) key = None" using assms(2) by simp
  from SaveImaged_loop_skip [OF this, of S ks1 ks2 "saver self"] assms(1,3) show ?thesis
    by (simp add: SaveImaged_call_valid split: prod.splits)
qed

lemma LoadImaged_call_absent:
  assumes "LoadImaged_call L self data rd h = (Inr r, h', self')" and "(h ! data) key = None"
  shows "(h' ! r) key = None"
proof (cases "data < length h")
  case False
  with assms(1) show ?thesis by (simp add: LoadImaged_call_invalid)
next
  case True
  from LoadImaged_call_loop [OF assms(1) True] obtain w' where
    loop: "LoadImaged_loop L (allow_missing_keys self) rd (length h) (keys self) (h @ [h ! data])
             (loader self) = (Inr r, h', w')"
    by blast
  from loop have "r = length h" by (rule LoadImaged_loop_ref)
  moreover from loop have "((h' ! length h) key = None) = (((h @ [h ! data]) ! length h) key = None)"
    by (rule LoadImaged_loop_absent) simp
  ultimately show ?thesis using assms(2) by simp
qed

lemma SaveImaged_call_absent:
  assumes "SaveImaged_call S self data h = (Inr r, h', self')" and "(h ! data) key = None"
  shows "(h' ! r) key = None"
proof (cases "data < length h")
  case False
  with assms(1) show ?thesis by (simp add: SaveImaged_call_invalid)
next
  case True
  from SaveImaged_call_loop [OF assms(1) True] obtain w' where
    loop: "SaveImaged_loop S (allow_missing_keys self) (length h) (keys self) (h @ [h ! data])
             (saver self) = (Inr r, h', w')"
    by blast
  from loop have "r = length h" by (rule SaveImaged_loop_ref)
  moreover from loop have "h' = h @ [h ! data]" by (rule SaveImaged_loop_heap)
  ultimately show ?thesis using assms(2) by simp
qed

text \<open>
  With a loader that leaves its state alone, the value a returning loop leaves at a
  configured key, configured once, is the loader's result on the value found there.
\<close>

lemma LoadImaged_loop_value:
  assumes pure: "\<forall>w v. snd (L w v rd) = w"
  shows "LoadImaged_loop L amk rd d ks h w = (Inr r, h', w') \<Longrightarrow> d < length h \<Longrightarrow>
     distinct ks \<Longrightarrow> key \<in> set ks \<Longrightarrow> (h ! d) key = Some v \<Longrightarrow>
     \<exists>v'. fst (L w v rd) = Inr v' \<and> (h' ! d) key = Some v'"
proof (induction ks arbitrary: h)
  case Nil
  then show ?case by simp
next
  case (Cons k rest)
  show ?case
  proof (cases "(h ! d) k")
    case None
    with Cons.prems have "key \<noteq> k" by auto
    with Cons.prems None have "key \<in> set rest" and "distinct rest"
      and "LoadImaged_loop L amk rd d rest h w = (Inr r, h', w')"
      by (auto simp: key_iterator_cases split: if_splits)
    with Cons.IH Cons.prems show ?thesis by blast
  next
    case (Some u)
    obtain a w1 where call: "L w u rd = (a, w1)" by (cases "L w u rd") auto
    with pure have w1: "w1 = w" by (metis snd_conv)
    from Cons.prems(1) Some call obtain u' where a: "a = Inr u'"
      by (cases a) (auto simp: key_iterator_cases)
    let ?h1 = "h[d := (h ! d)(k \<mapsto> u')]"
    from Cons.prems(1) Some call a w1
    have loop: "LoadImaged_loop L amk rd d rest ?h1 w = (Inr r, h', w')"
      by (simp add: key_iterator_cases)
    from Cons.prems have d1: "d < length ?h1" and dist: "distinct rest" by simp_all
    show ?thesis
    proof (cases "key = k")
      case True
      with Cons.prems Some have "u = v" and "key \<notin> set rest" by auto
      with loop d1 have "(h' ! d) key = (?h1 ! d) key" by (intro LoadImaged_loop_frame)
      with True Cons.prems(2) have "(h' ! d) key = Some u'" by simp
      with call a \<open>u = v\<close> show ?thesis by simp
    next
      case False
      with Cons.prems have "key \<in> set rest" and "(?h1 ! d) key = Some v" by auto
      from Cons.IH [OF loop d1 dist this] show ?thesis .
    qed
  qed
qed

lemma LoadImage_call_state:
  "snd (LoadImage_call ld v rd) = ld"
  by (simp add: LoadImage_call_def split: option.splits)

lemma LoadImage_call_registered:
  assumes "verify_suffix reader v"
  shows "LoadImage_call (LoadImage_register ld reader) v None =
           (read reader v, LoadImage_register ld reader)"
  using assms by (simp add: LoadImage_call_def LoadImage_register_def)

text \<open>
  The loop over a list of keys with one more key at its end: the loop over the list and
  then, on the store and service state it left, the step for the last key.
\<close>

lemma recording_saver_apply:
  "recording_saver S (w, log) v = (case S w v of (res, w') \<Rightarrow> (res, (w', log @ [v])))"
  by (simp add: recording_saver_def)

lemma recording_loader_apply:
  "recording_loader L (w, log) v rd = (case L w v rd of (res, w') \<Rightarrow> (res, (w', log @ [(v, res)])))"
  by (simp add: recording_loader_def)

lemma LoadImaged_loop_snoc:
  "LoadImaged_loop L amk rd d (ks @ [key]) h w =
     (case LoadImaged_loop L amk rd d ks h w of
        (Inl x, h1, w1) \<Rightarrow> (Inl x, h1, w1)
      | (Inr r, h1, w1) \<Rightarrow>
          (case (h1 ! d) key of
             None \<Rightarrow> if amk then (Inr d, h1, w1) else (Inl (KeyError key), h1, w1)
           | Some v \<Rightarrow>
               (case L w1 v rd of
                  (Inl x, w2) \<Rightarrow> (Inl x, h1, w2)
                | (Inr v', w2) \<Rightarrow> (Inr d, h1[d := (h1 ! d)(key \<mapsto> v')], w2))))"
  by (simp add: LoadImaged_loop_append key_iterator_cases
      split: prod.splits sum.splits option.splits)

lemma SaveImaged_loop_snoc:
  "SaveImaged_loop S amk d (ks @ [key]) h w =
     (case SaveImaged_loop S amk d ks h w of
        (Inl x, h1, w1) \<Rightarrow> (Inl x, h1, w1)
      | (Inr r, h1, w1) \<Rightarrow>
          (case (h1 ! d) key of
             None \<Rightarrow> if amk then (Inr d, h1, w1) else (Inl (KeyError key), h1, w1)
           | Some v \<Rightarrow>
               (case S w1 v of
                  (Inl x, w2) \<Rightarrow> (Inl x, h1, w2)
                | (Inr v', w2) \<Rightarrow> (Inr d, h1, w2))))"
  by (simp add: SaveImaged_loop_append key_iterator_cases
      split: prod.splits sum.splits option.splits)

lemma SaveImaged_loop_trace:
  "SaveImaged_loop (recording_saver S) amk d ks h (w, log) = (res, h', (w', log')) \<Longrightarrow>
   \<exists>ys. log' = log @ ys \<and> prefix ys (List.map_filter (h ! d) ks) \<and>
        (\<forall>r. res = Inr r \<longrightarrow> ys = List.map_filter (h ! d) ks)"
proof (induction ks arbitrary: w log)
  case Nil
  then show ?case by (simp add: map_filter_simps)
next
  case (Cons k rest)
  show ?case
  proof (cases "(h ! d) k")
    case None
    with Cons show ?thesis
      by (cases amk) (auto simp: key_iterator_cases map_filter_simps)
  next
    case (Some v)
    obtain r1 w1 where call: "S w v = (r1, w1)" by (cases "S w v") auto
    show ?thesis
    proof (cases r1)
      case (Inl x)
      with Cons.prems Some call have "log' = log @ [v]" and "res = Inl x"
        by (simp_all add: key_iterator_cases recording_saver_apply)
      with Some show ?thesis by (simp add: map_filter_simps)
    next
      case (Inr v')
      with Cons.prems Some call
      have "SaveImaged_loop (recording_saver S) amk d rest h (w1, log @ [v]) = (res, h', (w', log'))"
        by (simp add: key_iterator_cases recording_saver_apply)
      from Cons.IH [OF this] obtain ys where
        "log' = (log @ [v]) @ ys" "prefix ys (List.map_filter (h ! d) rest)"
        "\<forall>r. res = Inr r \<longrightarrow> ys = List.map_filter (h ! d) rest"
        by blast
      with Some have "log' = log @ (v # ys) \<and> prefix (v # ys) (List.map_filter (h ! d) (k # rest)) \<and>
        (\<forall>r. res = Inr r \<longrightarrow> v # ys = List.map_filter (h ! d) (k # rest))"
        by (simp add: map_filter_simps)
      then show ?thesis by blast
    qed
  qed
qed

lemma LoadImaged_loop_trace:
  "LoadImaged_loop (recording_loader L) amk rd d ks h (w, log) = (res, h', (w', log')) \<Longrightarrow>
   d < length h \<Longrightarrow>
   \<exists>io. log' = log @ io \<and> map fst io = handed_over amk ks (h ! d) (map snd io)"
proof (induction ks arbitrary: w log h)
  case Nil
  then show ?case by simp
next
  case (Cons k rest)
  show ?case
  proof (cases "(h ! d) k")
    case None
    show ?thesis
    proof (cases amk)
      case True
      with Cons.prems None
      have "LoadImaged_loop (recording_loader L) amk rd d rest h (w, log) = (res, h', (w', log'))"
        by (simp add: key_iterator_cases)
      from Cons.IH [OF this Cons.prems(2)] None True show ?thesis by simp
    next
      case False
      with Cons.prems None have "log' = log" by (simp add: key_iterator_cases)
      with None False show ?thesis by simp
    qed
  next
    case (Some v)
    obtain r1 w1 where call: "L w v rd = (r1, w1)" by (cases "L w v rd") auto
    show ?thesis
    proof (cases r1)
      case (Inl x)
      with Cons.prems Some call have "log' = log @ [(v, Inl x)]"
        by (simp add: key_iterator_cases recording_loader_apply)
      with Some show ?thesis by simp
    next
      case (Inr v')
      let ?h1 = "h[d := (h ! d)(k \<mapsto> v')]"
      from Inr Cons.prems Some call
      have "LoadImaged_loop (recording_loader L) amk rd d rest ?h1 (w1, log @ [(v, Inr v')]) =
          (res, h', (w', log'))"
        by (simp add: key_iterator_cases recording_loader_apply)
      moreover from Cons.prems have "d < length ?h1" by simp
      ultimately obtain io where
        io: "log' = (log @ [(v, Inr v')]) @ io"
        "map fst io = handed_over amk rest (?h1 ! d) (map snd io)"
        using Cons.IH by blast
      from Cons.prems(2) have "?h1 ! d = (h ! d)(k \<mapsto> v')" by simp
      with io Some have "log' = log @ ((v, Inr v') # io) \<and>
          map fst ((v, Inr v') # io) = handed_over amk (k # rest) (h ! d) (map snd ((v, Inr v') # io))"
        by simp
      then show ?thesis by blast
    qed
  qed
qed









section \<open>Example collaborators\<close>

text \<open>
  A saver that keeps the list of the values it was given (the files it wrote), returns
  its argument, and fails on the empty value.
\<close>

definition log_saver :: "string list \<Rightarrow> string \<Rightarrow> ((string, unit) exn + string) \<times> string list" where
  "log_saver w v = (if v = [] then (Inl RuntimeError, w) else (Inr v, w @ [v]))"

text \<open>
  A loader that returns the file name with the name of the reader used appended, counts
  its calls, and fails on the empty file name.
\<close>

definition suffix_loader :: "nat \<Rightarrow> string \<Rightarrow> string option \<Rightarrow> ((string, unit) exn + string) \<times> nat" where
  "suffix_loader w v rd =
     (if v = [] then (Inl RuntimeError, Suc w)
      else (Inr (v @ ''#'' @ (case rd of None \<Rightarrow> ''auto'' | Some r \<Rightarrow> r)), Suc w))"

text \<open>
  A reader that supports the file names with a given extension and returns the file name
  with its own tag appended.
\<close>

definition suffix_reader :: "string \<Rightarrow> string \<Rightarrow> (string, string, unit) ImageReader" where
  "suffix_reader ext tag =
     \<lparr>verify_suffix = (\<lambda>filename. suffix ext filename),
      read = (\<lambda>filename. Inr (filename @ ''#'' @ tag))\<rparr>"

section \<open>SaveImaged returns the record with its content unchanged\<close>

text \<open>
  C3. Whenever \<open>SaveImaged.__call__\<close> returns, the dictionary it returns has the content
  of the input dictionary: the same keys, each bound to the same value. (As maps, the two
  are equal.) Saving shows in the saver's state only.
\<close>

theorem SaveImaged_call_content:
  assumes "SaveImaged_call S self data h = (Inr r, h', self')"
  shows "h' ! r = h ! data"
proof (cases "data < length h")
  case False
  with assms show ?thesis by (simp add: SaveImaged_call_invalid)
next
  case True
  obtain res hl wl where
    loop: "SaveImaged_loop S (allow_missing_keys self) (length h) (keys self) (h @ [h ! data])
             (saver self) = (res, hl, wl)"
    by (cases "SaveImaged_loop S (allow_missing_keys self) (length h) (keys self)
                 (h @ [h ! data]) (saver self)") auto
  from assms True loop have res: "res = Inr r" and h': "h' = hl"
    by (simp_all add: SaveImaged_call_valid)
  from loop res have "r = length h" by (auto dest: SaveImaged_loop_ref)
  moreover from loop have "hl = h @ [h ! data]" by (rule SaveImaged_loop_heap)
  ultimately show ?thesis using h' by simp
qed

theorem SaveImaged_call_content_witness:
  "SaveImaged_call log_saver \<lparr>keys = [''seg''], allow_missing_keys = False, saver = []\<rparr> 0
       [[''img'' \<mapsto> ''a.nii'', ''seg'' \<mapsto> ''b.nii'']] =
     (Inr 1, [[''img'' \<mapsto> ''a.nii'', ''seg'' \<mapsto> ''b.nii''], [''img'' \<mapsto> ''a.nii'', ''seg'' \<mapsto> ''b.nii'']],
      \<lparr>keys = [''seg''], allow_missing_keys = False, saver = [''b.nii'']\<rparr>) \<and>
   [[''img'' \<mapsto> ''a.nii'', ''seg'' \<mapsto> ''b.nii''], [''img'' \<mapsto> ''a.nii'', ''seg'' \<mapsto> ''b.nii'']] ! 1 =
     [[''img'' \<mapsto> ''a.nii'', ''seg'' \<mapsto> ''b.nii'']] ! 0"
proof -
  have run: "SaveImaged_call log_saver \<lparr>keys = [''seg''], allow_missing_keys = False, saver = []\<rparr> 0
       [[''img'' \<mapsto> ''a.nii'', ''seg'' \<mapsto> ''b.nii'']] =
     (Inr 1, [[''img'' \<mapsto> ''a.nii'', ''seg'' \<mapsto> ''b.nii''], [''img'' \<mapsto> ''a.nii'', ''seg'' \<mapsto> ''b.nii'']],
      \<lparr>keys = [''seg''], allow_missing_keys = False, saver = [''b.nii'']\<rparr>)"
    by (simp add: SaveImaged_call_def dict_copy_def key_iterator_def log_saver_def)
  from SaveImaged_call_content [OF run] run show ?thesis by simp
qed

section \<open>The caller's mapping is left as it was\<close>

text \<open>
  C4. Both \<open>__call__\<close>s work on the copy made by \<open>dict(data)\<close>. Whether the call
  returns or raises, the caller's mapping \<open>data\<close> holds afterwards what it held before
  (as does every dictionary that existed before the call), and a returned reference is
  that of the new dictionary, never that of \<open>data\<close>.
\<close>

theorem call_keeps_original:
  "(LoadImaged_call L self data rd h = (res, h', self') \<longrightarrow>
      h' ! data = h ! data \<and> take (length h) h' = h \<and> (\<forall>r. res = Inr r \<longrightarrow> r = length h \<and> r \<noteq> data)) \<and>
   (SaveImaged_call S self2 data h = (res2, h2', self2') \<longrightarrow>
      h2' ! data = h ! data \<and> take (length h) h2' = h \<and> (\<forall>r. res2 = Inr r \<longrightarrow> r = length h \<and> r \<noteq> data))"
proof -
  have load: "h' ! data = h ! data \<and> take (length h) h' = h \<and>
        (\<forall>r. res = Inr r \<longrightarrow> r = length h \<and> r \<noteq> data)"
    if a: "LoadImaged_call L self data rd h = (res, h', self')"
  proof (cases "data < length h")
    case False
    with a show ?thesis by (auto simp: LoadImaged_call_invalid)
  next
    case True
    from LoadImaged_call_loop [OF a True] obtain w' where
      loop: "LoadImaged_loop L (allow_missing_keys self) rd (length h) (keys self) (h @ [h ! data])
               (loader self) = (res, h', w')"
      by blast
    from loop have len: "length h' = Suc (length h)" by (auto dest: LoadImaged_loop_length)
    have old: "take (length h) h' = h"
    proof (rule nth_equalityI)
      from len show "length (take (length h) h') = length h" by simp
    next
      fix i assume "i < length (take (length h) h')"
      then have i: "i < length h" by simp
      then have "i \<noteq> length h" by simp
      with loop have "h' ! i = (h @ [h ! data]) ! i" by (rule LoadImaged_loop_others)
      with i show "take (length h) h' ! i = h ! i" by (simp add: nth_append)
    qed
    from True have "take (length h) h' ! data = h' ! data" by simp
    with old have "h' ! data = h ! data" by simp
    moreover from loop True have "\<forall>r. res = Inr r \<longrightarrow> r = length h \<and> r \<noteq> data"
      by (auto dest: LoadImaged_loop_ref)
    ultimately show ?thesis using old by simp
  qed
  have save: "h2' ! data = h ! data \<and> take (length h) h2' = h \<and>
        (\<forall>r. res2 = Inr r \<longrightarrow> r = length h \<and> r \<noteq> data)"
    if a: "SaveImaged_call S self2 data h = (res2, h2', self2')"
  proof (cases "data < length h")
    case False
    with a show ?thesis by (auto simp: SaveImaged_call_invalid)
  next
    case True
    from SaveImaged_call_loop [OF a True] obtain w' where
      loop: "SaveImaged_loop S (allow_missing_keys self2) (length h) (keys self2) (h @ [h ! data])
               (saver self2) = (res2, h2', w')"
      by blast
    from loop have "h2' = h @ [h ! data]" by (rule SaveImaged_loop_heap)
    with loop True show ?thesis by (auto simp: nth_append dest: SaveImaged_loop_ref)
  qed
  from load save show ?thesis by blast
qed

theorem call_keeps_original_witness:
  "fst (LoadImaged_call suffix_loader \<lparr>keys = [''img''], allow_missing_keys = False, loader = 0\<rparr> 0 None
       [[''img'' \<mapsto> ''a.nii'', ''label'' \<mapsto> ''b.nii'']]) = Inr 1 \<and>
   (fst (snd (LoadImaged_call suffix_loader \<lparr>keys = [''img''], allow_missing_keys = False, loader = 0\<rparr> 0 None
       [[''img'' \<mapsto> ''a.nii'', ''label'' \<mapsto> ''b.nii'']])) ! 0) ''img'' = Some ''a.nii'' \<and>
   (fst (snd (LoadImaged_call suffix_loader \<lparr>keys = [''img''], allow_missing_keys = False, loader = 0\<rparr> 0 None
       [[''img'' \<mapsto> ''a.nii'', ''label'' \<mapsto> ''b.nii'']])) ! 1) ''img'' = Some ''a.nii#auto'' \<and>
   fst (SaveImaged_call log_saver \<lparr>keys = [''img''], allow_missing_keys = False, saver = []\<rparr> 0
       [[''img'' \<mapsto> ''a.nii'', ''label'' \<mapsto> ''b.nii'']]) = Inr 1 \<and>
   (fst (snd (SaveImaged_call log_saver \<lparr>keys = [''img''], allow_missing_keys = False, saver = []\<rparr> 0
       [[''img'' \<mapsto> ''a.nii'', ''label'' \<mapsto> ''b.nii'']])) ! 0) ''img'' = Some ''a.nii''"
proof -
  let ?h = "[[''img'' \<mapsto> ''a.nii'', ''label'' \<mapsto> ''b.nii'']]"
  let ?l = "LoadImaged_call suffix_loader \<lparr>keys = [''img''], allow_missing_keys = False, loader = 0\<rparr> 0 None ?h"
  let ?s = "SaveImaged_call log_saver \<lparr>keys = [''img''], allow_missing_keys = False, saver = []\<rparr> 0 ?h"
  have l: "?l = (fst ?l, fst (snd ?l), snd (snd ?l))" and s: "?s = (fst ?s, fst (snd ?s), snd (snd ?s))"
    by simp_all
  have lres: "fst ?l = Inr 1" and lnew: "(fst (snd ?l) ! 1) ''img'' = Some ''a.nii#auto''"
    by (simp_all add: LoadImaged_call_def dict_copy_def key_iterator_def suffix_loader_def)
  have sres: "fst ?s = Inr 1"
    by (simp add: SaveImaged_call_def dict_copy_def key_iterator_def log_saver_def)
  from call_keeps_original [of suffix_loader _ 0 None ?h "fst ?l" "fst (snd ?l)" "snd (snd ?l)"
      log_saver _ "fst ?s" "fst (snd ?s)" "snd (snd ?s)"] l s
  have "fst (snd ?l) ! 0 = ?h ! 0" and "fst (snd ?s) ! 0 = ?h ! 0"
    by blast+
  with lres lnew sres show ?thesis by simp
qed

section \<open>Entries that are not configured pass through LoadImaged\<close>

text \<open>
  C6. Whenever \<open>LoadImaged.__call__\<close> returns, every key that is not among the configured
  keys is bound in the returned dictionary exactly as in the input dictionary (to the
  same value, or not at all).
\<close>

theorem LoadImaged_call_passthrough:
  assumes "LoadImaged_call L self data rd h = (Inr r, h', self')" and "k \<notin> set (keys self)"
  shows "(h' ! r) k = (h ! data) k"
proof (cases "data < length h")
  case False
  with assms(1) show ?thesis by (simp add: LoadImaged_call_invalid)
next
  case True
  from LoadImaged_call_loop [OF assms(1) True] obtain w' where
    loop: "LoadImaged_loop L (allow_missing_keys self) rd (length h) (keys self) (h @ [h ! data])
             (loader self) = (Inr r, h', w')"
    by blast
  from loop have "r = length h" by (rule LoadImaged_loop_ref)
  moreover from loop assms(2) have "(h' ! length h) k = ((h @ [h ! data]) ! length h) k"
    by (intro LoadImaged_loop_frame) simp_all
  ultimately show ?thesis by simp
qed

theorem LoadImaged_call_passthrough_witness:
  "fst (LoadImaged_call suffix_loader \<lparr>keys = [''img''], allow_missing_keys = False, loader = 0\<rparr> 0 None
       [[''img'' \<mapsto> ''a.nii'', ''label'' \<mapsto> ''b.nii'']]) = Inr 1 \<and>
   ''label'' \<notin> set [''img''] \<and>
   (fst (snd (LoadImaged_call suffix_loader \<lparr>keys = [''img''], allow_missing_keys = False, loader = 0\<rparr> 0 None
       [[''img'' \<mapsto> ''a.nii'', ''label'' \<mapsto> ''b.nii'']])) ! 1) ''label'' = Some ''b.nii'' \<and>
   (fst (snd (LoadImaged_call suffix_loader \<lparr>keys = [''img''], allow_missing_keys = False, loader = 0\<rparr> 0 None
       [[''img'' \<mapsto> ''a.nii'', ''label'' \<mapsto> ''b.nii'']])) ! 1) ''img'' = Some ''a.nii#auto''"
proof -
  let ?run = "LoadImaged_call suffix_loader \<lparr>keys = [''img''], allow_missing_keys = False, loader = 0\<rparr> 0 None
       [[''img'' \<mapsto> ''a.nii'', ''label'' \<mapsto> ''b.nii'']]"
  have res: "fst ?run = Inr 1"
    by (simp add: LoadImaged_call_def dict_copy_def key_iterator_def suffix_loader_def)
  have img: "(fst (snd ?run) ! 1) ''img'' = Some ''a.nii#auto''"
    by (simp add: LoadImaged_call_def dict_copy_def key_iterator_def suffix_loader_def)
  have run: "?run = (Inr 1, fst (snd ?run), snd (snd ?run))"
    using res by (metis prod.collapse)
  have out: "''label'' \<notin> set (keys \<lparr>keys = [''img''], allow_missing_keys = False, loader = 0::nat\<rparr>)"
    by simp
  from LoadImaged_call_passthrough [OF run out] res img show ?thesis by simp
qed

section \<open>LoadImaged stores what the loader returns\<close>

text \<open>
  C1 (amended). Let the record contain every configured key, and let no key be configured
  twice. If invoking the loader directly on the record's original values at the
  configured keys, in their order and with the reader override, returns the values
  \<open>vs\<close>, then \<open>LoadImaged.__call__\<close> returns a new dictionary in which each configured
  key is bound to the loader's result for the original value at that key, and leaves the
  loader in the same state as the direct invocations.
\<close>

theorem LoadImaged_call_loads:
  assumes "data < length h"
    and "distinct (keys self)"
    and "\<forall>k\<in>set (keys self). (h ! data) k \<noteq> None"
    and "LoadImage_calls L (loader self) (map (\<lambda>k. the ((h ! data) k)) (keys self)) rd = (Inr vs, w')"
  shows "\<exists>h'. LoadImaged_call L self data rd h = (Inr (length h), h', self\<lparr>loader := w'\<rparr>) \<and>
           (\<forall>i<length (keys self). (h' ! length h) (keys self ! i) = Some (vs ! i))"
proof -
  let ?h0 = "h @ [h ! data]"
  let ?d = "length h"
  have d: "?d < length ?h0" and h0: "?h0 ! ?d = h ! data" by simp_all
  from assms(4) have len: "length (keys self) = length vs"
    by (auto dest: LoadImage_calls_length)
  have "LoadImaged_loop L (allow_missing_keys self) rd ?d (keys self) ?h0 (loader self) =
          (Inr ?d, ?h0[?d := (?h0 ! ?d)(keys self [\<mapsto>] vs)], w')"
  proof (rule LoadImaged_loop_loads [OF d assms(2)])
    from assms(3) show "\<forall>k\<in>set (keys self). (?h0 ! ?d) k \<noteq> None" by simp
    from assms(4) show "LoadImage_calls L (loader self) (map (\<lambda>k. the ((?h0 ! ?d) k)) (keys self)) rd =
        (Inr vs, w')" by simp
  qed
  with assms(1) have call: "LoadImaged_call L self data rd h =
      (Inr ?d, h @ [(h ! data)(keys self [\<mapsto>] vs)], self\<lparr>loader := w'\<rparr>)"
    by (simp add: LoadImaged_call_valid)
  moreover have "\<forall>i<length (keys self).
      ((h @ [(h ! data)(keys self [\<mapsto>] vs)]) ! ?d) (keys self ! i) = Some (vs ! i)"
    using len assms(2) by (simp add: map_upds_distinct_nth)
  ultimately show ?thesis by blast
qed


theorem LoadImaged_call_loads_witness:
  "LoadImage_calls suffix_loader 0 [''a.nii'', ''b.nii''] None = (Inr [''a.nii#auto'', ''b.nii#auto''], 2) \<and>
   fst (LoadImaged_call suffix_loader
          \<lparr>keys = [''img'', ''label''], allow_missing_keys = False, loader = 0\<rparr> 0 None
          [[''img'' \<mapsto> ''a.nii'', ''label'' \<mapsto> ''b.nii'']]) = Inr 1 \<and>
   (fst (snd (LoadImaged_call suffix_loader
          \<lparr>keys = [''img'', ''label''], allow_missing_keys = False, loader = 0\<rparr> 0 None
          [[''img'' \<mapsto> ''a.nii'', ''label'' \<mapsto> ''b.nii'']])) ! 1) ''img'' = Some ''a.nii#auto'' \<and>
   (fst (snd (LoadImaged_call suffix_loader
          \<lparr>keys = [''img'', ''label''], allow_missing_keys = False, loader = 0\<rparr> 0 None
          [[''img'' \<mapsto> ''a.nii'', ''label'' \<mapsto> ''b.nii'']])) ! 1) ''label'' = Some ''b.nii#auto''"
proof -
  let ?self = "\<lparr>keys = [''img'', ''label''], allow_missing_keys = False, loader = 0::nat\<rparr>"
  let ?h = "[[''img'' \<mapsto> ''a.nii'', ''label'' \<mapsto> ''b.nii'']]"
  have calls: "LoadImage_calls suffix_loader 0 [''a.nii'', ''b.nii''] None =
      (Inr [''a.nii#auto'', ''b.nii#auto''], 2)"
    by (simp add: suffix_loader_def)
  have "\<exists>h'. LoadImaged_call suffix_loader ?self 0 None ?h = (Inr (length ?h), h', ?self\<lparr>loader := 2\<rparr>) \<and>
      (\<forall>i<length (keys ?self). (h' ! length ?h) (keys ?self ! i) = Some ([''a.nii#auto'', ''b.nii#auto''] ! i))"
    by (rule LoadImaged_call_loads) (simp_all add: suffix_loader_def)
  then obtain h' where
    call: "LoadImaged_call suffix_loader ?self 0 None ?h = (Inr 1, h', ?self\<lparr>loader := 2\<rparr>)" and
    vals: "\<forall>i<2::nat. (h' ! 1) ([''img'', ''label''] ! i) = Some ([''a.nii#auto'', ''b.nii#auto''] ! i)"
    by auto
  have "(h' ! 1) ''img'' = Some ''a.nii#auto''"
    using vals [rule_format, of 0] by simp
  moreover have "(h' ! 1) ''label'' = Some ''b.nii#auto''"
    using vals [rule_format, of 1] by simp
  ultimately show ?thesis using calls call by simp
qed


text \<open>
  C1 as stated, for any collection of configured keys, fails at the keys \<open>img, img\<close>:
  the value at \<open>img\<close> in the returned record is not the loader's result on the original
  value \<open>a.nii\<close>, which is \<open>a.nii#auto\<close> in either state of the loader.
\<close>

theorem LoadImaged_call_repeated_key:
  "fst (LoadImaged_call suffix_loader
          \<lparr>keys = [''img'', ''img''], allow_missing_keys = False, loader = 0\<rparr> 0 None
          [[''img'' \<mapsto> ''a.nii'']]) = Inr 1 \<and>
   (fst (snd (LoadImaged_call suffix_loader
          \<lparr>keys = [''img'', ''img''], allow_missing_keys = False, loader = 0\<rparr> 0 None
          [[''img'' \<mapsto> ''a.nii'']])) ! 1) ''img'' = Some ''a.nii#auto#auto'' \<and>
   fst (suffix_loader 0 ''a.nii'' None) = Inr ''a.nii#auto'' \<and>
   fst (suffix_loader 1 ''a.nii'' None) = Inr ''a.nii#auto''"
  by (simp add: LoadImaged_call_def dict_copy_def key_iterator_def suffix_loader_def)

section \<open>A failing key aborts the call\<close>

text \<open>
  C5. Let the keys \<open>ks1\<close> configured before \<open>key\<close> have been processed without error
  (the call with just these keys returns, leaving the store \<open>h1\<close> and the service state
  of \<open>self1\<close>), and let the service raise \<open>x\<close> on the value at \<open>key\<close>. Then the call
  with the keys \<open>ks1 @ key # ks2\<close> raises exactly \<open>x\<close>; the store is \<open>h1\<close>, so the
  working copy keeps what the earlier keys were given (nothing is rolled back); and the
  service is left in the state of its failing invocation, so it is not invoked for any
  of the remaining keys \<open>ks2\<close>. The same holds for \<open>SaveImaged\<close>.
\<close>

theorem failing_key_aborts:
  "(LoadImaged_call L (self\<lparr>keys := ks1\<rparr>) data rd h = (Inr r, h1, self1) \<and>
    (h1 ! r) key = Some v \<and> L (loader self1) v rd = (Inl x, w2) \<longrightarrow>
      LoadImaged_call L (self\<lparr>keys := ks1 @ key # ks2\<rparr>) data rd h =
        (Inl x, h1, self\<lparr>keys := ks1 @ key # ks2, loader := w2\<rparr>)) \<and>
   (SaveImaged_call S (self'\<lparr>keys := ks1\<rparr>) data h = (Inr r', h1', self1') \<and>
    (h1' ! r') key = Some v' \<and> S (saver self1') v' = (Inl x', w2') \<longrightarrow>
      SaveImaged_call S (self'\<lparr>keys := ks1 @ key # ks2\<rparr>) data h =
        (Inl x', h1', self'\<lparr>keys := ks1 @ key # ks2, saver := w2'\<rparr>))"
proof -
  have load: "LoadImaged_call L (self\<lparr>keys := ks1 @ key # ks2\<rparr>) data rd h =
        (Inl x, h1, self\<lparr>keys := ks1 @ key # ks2, loader := w2\<rparr>)"
    if a: "LoadImaged_call L (self\<lparr>keys := ks1\<rparr>) data rd h = (Inr r, h1, self1)"
      and v: "(h1 ! r) key = Some v" and fail: "L (loader self1) v rd = (Inl x, w2)"
  proof -
    from a have valid: "data < length h"
      by (cases "data < length h") (simp_all add: LoadImaged_call_invalid)
    from LoadImaged_call_loop [OF a valid] obtain w1 where
      loop: "LoadImaged_loop L (allow_missing_keys self) rd (length h) ks1 (h @ [h ! data])
               (loader self) = (Inr r, h1, w1)" and
      self1: "self1 = self\<lparr>keys := ks1, loader := w1\<rparr>"
      by auto
    from loop have r: "r = length h" by (rule LoadImaged_loop_ref)
    from self1 fail have "L w1 v rd = (Inl x, w2)" by simp
    with loop v r have "LoadImaged_loop L (allow_missing_keys self) rd (length h) (ks1 @ key # ks2)
         (h @ [h ! data]) (loader self) = (Inl x, h1, w2)"
      by (simp add: LoadImaged_loop_append key_iterator_cases)
    with valid show ?thesis by (simp add: LoadImaged_call_valid)
  qed
  have save: "SaveImaged_call S (self'\<lparr>keys := ks1 @ key # ks2\<rparr>) data h =
        (Inl x', h1', self'\<lparr>keys := ks1 @ key # ks2, saver := w2'\<rparr>)"
    if a: "SaveImaged_call S (self'\<lparr>keys := ks1\<rparr>) data h = (Inr r', h1', self1')"
      and v: "(h1' ! r') key = Some v'" and fail: "S (saver self1') v' = (Inl x', w2')"
  proof -
    from a have valid: "data < length h"
      by (cases "data < length h") (simp_all add: SaveImaged_call_invalid)
    from SaveImaged_call_loop [OF a valid] obtain w1 where
      loop: "SaveImaged_loop S (allow_missing_keys self') (length h) ks1 (h @ [h ! data])
               (saver self') = (Inr r', h1', w1)" and
      self1: "self1' = self'\<lparr>keys := ks1, saver := w1\<rparr>"
      by auto
    from loop have r: "r' = length h" by (rule SaveImaged_loop_ref)
    from self1 fail have "S w1 v' = (Inl x', w2')" by simp
    with loop v r have "SaveImaged_loop S (allow_missing_keys self') (length h) (ks1 @ key # ks2)
         (h @ [h ! data]) (saver self') = (Inl x', h1', w2')"
      by (simp add: SaveImaged_loop_append key_iterator_cases)
    with valid show ?thesis by (simp add: SaveImaged_call_valid)
  qed
  from load save show ?thesis by blast
qed


theorem failing_key_aborts_witness:
  "fst (LoadImaged_call suffix_loader
          \<lparr>keys = [''img'', ''seg'', ''label''], allow_missing_keys = False, loader = 0\<rparr> 0 None
          [[''img'' \<mapsto> ''a.nii'', ''seg'' \<mapsto> '''', ''label'' \<mapsto> ''b.nii'']]) = Inl RuntimeError \<and>
   (fst (snd (LoadImaged_call suffix_loader
          \<lparr>keys = [''img'', ''seg'', ''label''], allow_missing_keys = False, loader = 0\<rparr> 0 None
          [[''img'' \<mapsto> ''a.nii'', ''seg'' \<mapsto> '''', ''label'' \<mapsto> ''b.nii'']])) ! 1) ''img'' =
     Some ''a.nii#auto'' \<and>
   (fst (snd (LoadImaged_call suffix_loader
          \<lparr>keys = [''img'', ''seg'', ''label''], allow_missing_keys = False, loader = 0\<rparr> 0 None
          [[''img'' \<mapsto> ''a.nii'', ''seg'' \<mapsto> '''', ''label'' \<mapsto> ''b.nii'']])) ! 1) ''label'' =
     Some ''b.nii'' \<and>
   loader (snd (snd (LoadImaged_call suffix_loader
          \<lparr>keys = [''img'', ''seg'', ''label''], allow_missing_keys = False, loader = 0\<rparr> 0 None
          [[''img'' \<mapsto> ''a.nii'', ''seg'' \<mapsto> '''', ''label'' \<mapsto> ''b.nii'']]))) = 2 \<and>
   fst (SaveImaged_call log_saver
          \<lparr>keys = [''img'', ''seg'', ''label''], allow_missing_keys = False, saver = []\<rparr> 0
          [[''img'' \<mapsto> ''a.nii'', ''seg'' \<mapsto> '''', ''label'' \<mapsto> ''b.nii'']]) = Inl RuntimeError \<and>
   saver (snd (snd (SaveImaged_call log_saver
          \<lparr>keys = [''img'', ''seg'', ''label''], allow_missing_keys = False, saver = []\<rparr> 0
          [[''img'' \<mapsto> ''a.nii'', ''seg'' \<mapsto> '''', ''label'' \<mapsto> ''b.nii'']]))) = [''a.nii'']"
proof -
  let ?h = "[[''img'' \<mapsto> ''a.nii'', ''seg'' \<mapsto> '''', ''label'' \<mapsto> ''b.nii'']]"
  let ?l1 = "LoadImaged_call suffix_loader
      (\<lparr>keys = [], allow_missing_keys = False, loader = 0\<rparr>\<lparr>keys := [''img'']\<rparr>) 0 None ?h"
  let ?s1 = "SaveImaged_call log_saver
      (\<lparr>keys = [], allow_missing_keys = False, saver = []\<rparr>\<lparr>keys := [''img'']\<rparr>) 0 ?h"
  have l1: "?l1 = (Inr 1, fst (snd ?l1), snd (snd ?l1)) \<and> (fst (snd ?l1) ! 1) ''seg'' = Some '''' \<and>
      suffix_loader (loader (snd (snd ?l1))) '''' None = (Inl RuntimeError, 2)"
    by (simp add: LoadImaged_call_def dict_copy_def key_iterator_def suffix_loader_def)
  have s1: "?s1 = (Inr 1, fst (snd ?s1), snd (snd ?s1)) \<and> (fst (snd ?s1) ! 1) ''seg'' = Some '''' \<and>
      log_saver (saver (snd (snd ?s1))) '''' = (Inl RuntimeError, [''a.nii''])"
    by (simp add: SaveImaged_call_def dict_copy_def key_iterator_def log_saver_def)
  from failing_key_aborts [THEN conjunct1, rule_format, OF l1, of "[''label'']"]
  have l: "LoadImaged_call suffix_loader
      (\<lparr>keys = [], allow_missing_keys = False, loader = 0\<rparr>\<lparr>keys := [''img''] @ ''seg'' # [''label'']\<rparr>)
      0 None ?h =
      (Inl RuntimeError, fst (snd ?l1),
       \<lparr>keys = [], allow_missing_keys = False, loader = 0\<rparr>
         \<lparr>keys := [''img''] @ ''seg'' # [''label''], loader := 2\<rparr>)" .
  from failing_key_aborts [THEN conjunct2, rule_format, OF s1, of "[''label'']"]
  have s: "SaveImaged_call log_saver
      (\<lparr>keys = [], allow_missing_keys = False, saver = []\<rparr>\<lparr>keys := [''img''] @ ''seg'' # [''label'']\<rparr>)
      0 ?h =
      (Inl RuntimeError, fst (snd ?s1),
       \<lparr>keys = [], allow_missing_keys = False, saver = []\<rparr>
         \<lparr>keys := [''img''] @ ''seg'' # [''label''], saver := [''a.nii'']\<rparr>)" .
  have h1: "(fst (snd ?l1) ! 1) ''img'' = Some ''a.nii#auto''" "(fst (snd ?l1) ! 1) ''label'' = Some ''b.nii''"
    by (simp_all add: LoadImaged_call_def dict_copy_def key_iterator_def suffix_loader_def)
  from l s h1 show ?thesis by simp
qed

section \<open>Configured keys that the record does not have\<close>

text \<open>
  C2 (amended). Let the record have no entry for \<open>key\<close>. For \<open>LoadImaged\<close> and for
  \<open>SaveImaged\<close>:
  with \<open>allow_missing_keys = False\<close>, a call with \<open>key\<close> among the configured keys never
  returns a record, it raises; and when the keys configured before \<open>key\<close> were processed
  without error, what it raises is the missing-key error for \<open>key\<close> (otherwise the
  error of an earlier key surfaces first);
  with \<open>allow_missing_keys = True\<close>, \<open>key\<close> is skipped: the call behaves as the call
  without \<open>key\<close> among the configured keys, so the missing key causes no error; and
  whenever the call returns, the returned record has no entry for \<open>key\<close> either.
\<close>

theorem missing_key_policy:
  assumes "data < length h" and "(h ! data) key = None"
  shows
    "(\<not> allow_missing_keys self \<longrightarrow>
        (key \<in> set (keys self) \<longrightarrow> (\<exists>x. fst (LoadImaged_call L self data rd h) = Inl x)) \<and>
        (\<forall>r h1 self1. LoadImaged_call L (self\<lparr>keys := ks1\<rparr>) data rd h = (Inr r, h1, self1) \<longrightarrow>
           LoadImaged_call L (self\<lparr>keys := ks1 @ key # ks2\<rparr>) data rd h =
             (Inl (KeyError key), h1, self1\<lparr>keys := ks1 @ key # ks2\<rparr>))) \<and>
     (allow_missing_keys self \<longrightarrow>
        LoadImaged_call L (self\<lparr>keys := ks1 @ key # ks2\<rparr>) data rd h =
          (case LoadImaged_call L (self\<lparr>keys := ks1 @ ks2\<rparr>) data rd h of
             (res, h', self') \<Rightarrow> (res, h', self'\<lparr>keys := ks1 @ key # ks2\<rparr>)) \<and>
        (\<forall>r h' self'. LoadImaged_call L self data rd h = (Inr r, h', self') \<longrightarrow> (h' ! r) key = None)) \<and>
     (\<not> allow_missing_keys saving \<longrightarrow>
        (key \<in> set (keys saving) \<longrightarrow> (\<exists>x. fst (SaveImaged_call S saving data h) = Inl x)) \<and>
        (\<forall>r h1 self1. SaveImaged_call S (saving\<lparr>keys := ks1\<rparr>) data h = (Inr r, h1, self1) \<longrightarrow>
           SaveImaged_call S (saving\<lparr>keys := ks1 @ key # ks2\<rparr>) data h =
             (Inl (KeyError key), h1, self1\<lparr>keys := ks1 @ key # ks2\<rparr>))) \<and>
     (allow_missing_keys saving \<longrightarrow>
        SaveImaged_call S (saving\<lparr>keys := ks1 @ key # ks2\<rparr>) data h =
          (case SaveImaged_call S (saving\<lparr>keys := ks1 @ ks2\<rparr>) data h of
             (res, h', self') \<Rightarrow> (res, h', self'\<lparr>keys := ks1 @ key # ks2\<rparr>)) \<and>
        (\<forall>r h' self'. SaveImaged_call S saving data h = (Inr r, h', self') \<longrightarrow> (h' ! r) key = None))"
  using assms
  by (intro conjI impI allI LoadImaged_call_raises SaveImaged_call_raises LoadImaged_call_KeyError
      SaveImaged_call_KeyError LoadImaged_call_skip SaveImaged_call_skip)
     (blast intro: LoadImaged_call_absent SaveImaged_call_absent)+

theorem missing_key_policy_witness:
  "fst (LoadImaged_call suffix_loader
          \<lparr>keys = [''img'', ''seg''], allow_missing_keys = False, loader = 0\<rparr> 0 None
          [[''img'' \<mapsto> ''a.nii'']]) = Inl (KeyError ''seg'') \<and>
   fst (LoadImaged_call suffix_loader
          \<lparr>keys = [''img'', ''seg''], allow_missing_keys = True, loader = 0\<rparr> 0 None
          [[''img'' \<mapsto> ''a.nii'']]) = Inr 1 \<and>
   (fst (snd (LoadImaged_call suffix_loader
          \<lparr>keys = [''img'', ''seg''], allow_missing_keys = True, loader = 0\<rparr> 0 None
          [[''img'' \<mapsto> ''a.nii'']])) ! 1) ''seg'' = None \<and>
   (fst (snd (LoadImaged_call suffix_loader
          \<lparr>keys = [''img'', ''seg''], allow_missing_keys = True, loader = 0\<rparr> 0 None
          [[''img'' \<mapsto> ''a.nii'']])) ! 1) ''img'' = Some ''a.nii#auto'' \<and>
   fst (SaveImaged_call log_saver
          \<lparr>keys = [''img'', ''seg''], allow_missing_keys = False, saver = []\<rparr> 0
          [[''img'' \<mapsto> ''a.nii'']]) = Inl (KeyError ''seg'') \<and>
   fst (SaveImaged_call log_saver
          \<lparr>keys = [''img'', ''seg''], allow_missing_keys = True, saver = []\<rparr> 0
          [[''img'' \<mapsto> ''a.nii'']]) = Inr 1 \<and>
   (fst (snd (SaveImaged_call log_saver
          \<lparr>keys = [''img'', ''seg''], allow_missing_keys = True, saver = []\<rparr> 0
          [[''img'' \<mapsto> ''a.nii'']])) ! 1) ''seg'' = None"
proof -
  let ?h = "[[''img'' \<mapsto> ''a.nii'']]"
  have valid: "0 < length ?h" and missing: "(?h ! 0) ''seg'' = None" by simp_all
  note strict = missing_key_policy [where self = "\<lparr>keys = [''img'', ''seg''], allow_missing_keys = False, loader = 0\<rparr>"
        and saving = "\<lparr>keys = [''img'', ''seg''], allow_missing_keys = False, saver = []\<rparr>"
        and L = suffix_loader and S = log_saver and rd = None
        and ?ks1.0 = "[''img'']" and ?ks2.0 = "[]", OF valid missing]
  note lenient = missing_key_policy [where self = "\<lparr>keys = [''img'', ''seg''], allow_missing_keys = True, loader = 0\<rparr>"
        and saving = "\<lparr>keys = [''img'', ''seg''], allow_missing_keys = True, saver = []\<rparr>"
        and L = suffix_loader and S = log_saver and rd = None
        and ?ks1.0 = "[''img'']" and ?ks2.0 = "[]", OF valid missing]
  let ?lF = "\<lparr>keys = [''img'', ''seg''], allow_missing_keys = False, loader = 0::nat\<rparr>"
  let ?lT = "\<lparr>keys = [''img'', ''seg''], allow_missing_keys = True, loader = 0::nat\<rparr>"
  let ?sF = "\<lparr>keys = [''img'', ''seg''], allow_missing_keys = False, saver = []::string list\<rparr>"
  let ?sT = "\<lparr>keys = [''img'', ''seg''], allow_missing_keys = True, saver = []::string list\<rparr>"
  let ?l1 = "LoadImaged_call suffix_loader (?lF\<lparr>keys := [''img'']\<rparr>) 0 None ?h"
  let ?s1 = "SaveImaged_call log_saver (?sF\<lparr>keys := [''img'']\<rparr>) 0 ?h"
  let ?l = "LoadImaged_call suffix_loader ?lT 0 None ?h"
  let ?s = "SaveImaged_call log_saver ?sT 0 ?h"
  have flags: "\<not> allow_missing_keys ?lF" "allow_missing_keys ?lT"
    "\<not> allow_missing_keys ?sF" "allow_missing_keys ?sT"
    by simp_all
  have l1: "?l1 = (Inr 1, fst (snd ?l1), snd (snd ?l1))"
    by (simp add: LoadImaged_call_def dict_copy_def key_iterator_def suffix_loader_def)
  have s1: "?s1 = (Inr 1, fst (snd ?s1), snd (snd ?s1))"
    by (simp add: SaveImaged_call_def dict_copy_def key_iterator_def log_saver_def)
  have l: "?l = (Inr 1, fst (snd ?l), snd (snd ?l))"
    by (simp add: LoadImaged_call_def dict_copy_def key_iterator_def suffix_loader_def)
  have s: "?s = (Inr 1, fst (snd ?s), snd (snd ?s))"
    by (simp add: SaveImaged_call_def dict_copy_def key_iterator_def log_saver_def)
  from strict [THEN conjunct1, THEN mp, OF flags(1), THEN conjunct2, rule_format, OF l1]
  have "fst (LoadImaged_call suffix_loader (?lF\<lparr>keys := [''img''] @ ''seg'' # []\<rparr>) 0 None ?h) =
      Inl (KeyError ''seg'')"
    by simp
  moreover
  from strict [THEN conjunct2, THEN conjunct2, THEN conjunct1, THEN mp, OF flags(3),
      THEN conjunct2, rule_format, OF s1]
  have "fst (SaveImaged_call log_saver (?sF\<lparr>keys := [''img''] @ ''seg'' # []\<rparr>) 0 ?h) =
      Inl (KeyError ''seg'')"
    by simp
  moreover
  from lenient [THEN conjunct2, THEN conjunct1, THEN mp, OF flags(2), THEN conjunct2, rule_format, OF l]
  have "(fst (snd ?l) ! 1) ''seg'' = None" .
  moreover
  from lenient [THEN conjunct2, THEN conjunct2, THEN conjunct2, THEN mp, OF flags(4),
      THEN conjunct2, rule_format, OF s]
  have "(fst (snd ?s) ! 1) ''seg'' = None" .
  moreover have "fst ?l = Inr 1" using l by (metis fst_conv)
  moreover have "fst ?s = Inr 1" using s by (metis fst_conv)
  moreover have "(fst (snd ?l) ! 1) ''img'' = Some ''a.nii#auto''"
    by (simp add: LoadImaged_call_def dict_copy_def key_iterator_def suffix_loader_def)
  ultimately show ?thesis by simp
qed

text \<open>
  C2 as stated fails when the service raises for a key configured before the
  missing one: the iterator is a generator, so the loader (or saver) is invoked for
  \<open>img\<close> before the iterator looks at \<open>seg\<close>. With missing keys not allowed, the error
  that surfaces is the service's, not the missing-key error; with missing keys allowed,
  the call does not succeed.
\<close>

theorem missing_key_after_failure:
  "([[''img'' \<mapsto> '''']] ! 0) ''seg'' = None \<and>
   fst (LoadImaged_call suffix_loader
          \<lparr>keys = [''img'', ''seg''], allow_missing_keys = False, loader = 0\<rparr> 0 None
          [[''img'' \<mapsto> '''']]) = Inl RuntimeError \<and>
   fst (SaveImaged_call log_saver
          \<lparr>keys = [''img'', ''seg''], allow_missing_keys = False, saver = []\<rparr> 0
          [[''img'' \<mapsto> '''']]) = Inl RuntimeError \<and>
   fst (LoadImaged_call suffix_loader
          \<lparr>keys = [''img'', ''seg''], allow_missing_keys = True, loader = 0\<rparr> 0 None
          [[''img'' \<mapsto> '''']]) = Inl RuntimeError \<and>
   fst (SaveImaged_call log_saver
          \<lparr>keys = [''img'', ''seg''], allow_missing_keys = True, saver = []\<rparr> 0
          [[''img'' \<mapsto> '''']]) = Inl RuntimeError"
  by (simp add: LoadImaged_call_def SaveImaged_call_def dict_copy_def key_iterator_def
      suffix_loader_def log_saver_def)

section \<open>The configured keys are processed in their order\<close>

text \<open>
  C7. Both loops process the configured keys from first to last. The loop over no key
  returns at once. The loop over \<open>ks @ [key]\<close> is the loop over \<open>ks\<close> and then, if
  that did not raise, the step for \<open>key\<close> on the store and the service state it left: a
  key the record lacks is skipped or raises the missing-key error, and for a key the
  record has the wrapped transform is invoked on the value found there and, for
  \<open>LoadImaged\<close>, the key is bound to the result. So the invocation and the assignment
  for a key come after those of every key before it and before those of every key after
  it. Seen from the wrapped transform: the values a call of \<open>SaveImaged\<close> hands to the saver
  are the record's values at the configured keys it has, in the order of the configured
  keys, all of them when the call returns and a first part of them when it raises; the
  values a call of \<open>LoadImaged\<close> hands to the loader are those of \<open>handed_over\<close> for
  the configured keys in their order, each key read after the assignments made for the
  keys before it.
\<close>

theorem keys_processed_in_order:
  "LoadImaged_loop L amk rd d [] h w = (Inr d, h, w) \<and>
   LoadImaged_loop L amk rd d (ks @ [key]) h w =
     (case LoadImaged_loop L amk rd d ks h w of
        (Inl x, h1, w1) \<Rightarrow> (Inl x, h1, w1)
      | (Inr r, h1, w1) \<Rightarrow>
          (case (h1 ! d) key of
             None \<Rightarrow> if amk then (Inr d, h1, w1) else (Inl (KeyError key), h1, w1)
           | Some v \<Rightarrow>
               (case L w1 v rd of
                  (Inl x, w2) \<Rightarrow> (Inl x, h1, w2)
                | (Inr v', w2) \<Rightarrow> (Inr d, h1[d := (h1 ! d)(key \<mapsto> v')], w2)))) \<and>
   SaveImaged_loop S amk d [] h u = (Inr d, h, u) \<and>
   SaveImaged_loop S amk d (ks @ [key]) h u =
     (case SaveImaged_loop S amk d ks h u of
        (Inl x, h1, u1) \<Rightarrow> (Inl x, h1, u1)
      | (Inr r, h1, u1) \<Rightarrow>
          (case (h1 ! d) key of
             None \<Rightarrow> if amk then (Inr d, h1, u1) else (Inl (KeyError key), h1, u1)
           | Some v \<Rightarrow>
               (case S u1 v of
                  (Inl x, u2) \<Rightarrow> (Inl x, h1, u2)
                | (Inr v', u2) \<Rightarrow> (Inr d, h1, u2)))) \<and>
   (SaveImaged_call (recording_saver S) saving data h = (res, h', saving') \<longrightarrow>
      (\<exists>ys. snd (saver saving') = snd (saver saving) @ ys \<and>
            prefix ys (List.map_filter (h ! data) (keys saving)) \<and>
            (\<forall>r. res = Inr r \<longrightarrow> ys = List.map_filter (h ! data) (keys saving)))) \<and>
   (data < length h \<longrightarrow>
    LoadImaged_call (recording_loader L) self data rd h = (res, h', self') \<longrightarrow>
      (\<exists>io. snd (loader self') = snd (loader self) @ io \<and>
            map fst io =
              handed_over (allow_missing_keys self) (keys self) (h ! data) (map snd io)))"
proof (intro conjI impI)
  show "LoadImaged_loop L amk rd d [] h w = (Inr d, h, w)"
    and "SaveImaged_loop S amk d [] h u = (Inr d, h, u)"
    by simp_all
  show "LoadImaged_loop L amk rd d (ks @ [key]) h w =
     (case LoadImaged_loop L amk rd d ks h w of
        (Inl x, h1, w1) \<Rightarrow> (Inl x, h1, w1)
      | (Inr r, h1, w1) \<Rightarrow>
          (case (h1 ! d) key of
             None \<Rightarrow> if amk then (Inr d, h1, w1) else (Inl (KeyError key), h1, w1)
           | Some v \<Rightarrow>
               (case L w1 v rd of
                  (Inl x, w2) \<Rightarrow> (Inl x, h1, w2)
                | (Inr v', w2) \<Rightarrow> (Inr d, h1[d := (h1 ! d)(key \<mapsto> v')], w2))))"
    by (rule LoadImaged_loop_snoc)
  show "SaveImaged_loop S amk d (ks @ [key]) h u =
     (case SaveImaged_loop S amk d ks h u of
        (Inl x, h1, u1) \<Rightarrow> (Inl x, h1, u1)
      | (Inr r, h1, u1) \<Rightarrow>
          (case (h1 ! d) key of
             None \<Rightarrow> if amk then (Inr d, h1, u1) else (Inl (KeyError key), h1, u1)
           | Some v \<Rightarrow>
               (case S u1 v of
                  (Inl x, u2) \<Rightarrow> (Inl x, h1, u2)
                | (Inr v', u2) \<Rightarrow> (Inr d, h1, u2))))"
    by (rule SaveImaged_loop_snoc)
next
  assume a: "SaveImaged_call (recording_saver S) saving data h = (res, h', saving')"
  show "\<exists>ys. snd (saver saving') = snd (saver saving) @ ys \<and>
            prefix ys (List.map_filter (h ! data) (keys saving)) \<and>
            (\<forall>r. res = Inr r \<longrightarrow> ys = List.map_filter (h ! data) (keys saving))"
  proof (cases "data < length h")
    case False
    with a have "saving' = saving" and "res = Inl TypeError"
      by (simp_all add: SaveImaged_call_invalid)
    then show ?thesis by simp
  next
    case True
    from SaveImaged_call_loop [OF a True] obtain wl where
      loop: "SaveImaged_loop (recording_saver S) (allow_missing_keys saving) (length h) (keys saving)
               (h @ [h ! data]) (saver saving) = (res, h', wl)" and
      saving': "saving' = saving\<lparr>saver := wl\<rparr>"
      by blast
    from loop have "SaveImaged_loop (recording_saver S) (allow_missing_keys saving) (length h)
        (keys saving) (h @ [h ! data]) (fst (saver saving), snd (saver saving)) = (res, h', (fst wl, snd wl))"
      by simp
    from SaveImaged_loop_trace [OF this] saving' show ?thesis by simp
  qed
next
  assume valid: "data < length h"
    and a: "LoadImaged_call (recording_loader L) self data rd h = (res, h', self')"
  from LoadImaged_call_loop [OF a valid] obtain wl where
    loop: "LoadImaged_loop (recording_loader L) (allow_missing_keys self) rd (length h) (keys self)
             (h @ [h ! data]) (loader self) = (res, h', wl)" and
    self': "self' = self\<lparr>loader := wl\<rparr>"
    by blast
  from loop have "LoadImaged_loop (recording_loader L) (allow_missing_keys self) rd (length h)
      (keys self) (h @ [h ! data]) (fst (loader self), snd (loader self)) = (res, h', (fst wl, snd wl))"
    by simp
  from LoadImaged_loop_trace [OF this] self'
  show "\<exists>io. snd (loader self') = snd (loader self) @ io \<and>
          map fst io = handed_over (allow_missing_keys self) (keys self) (h ! data) (map snd io)"
    by simp
qed


theorem keys_processed_in_order_witness:
  "fst (SaveImaged_call (recording_saver log_saver)
          \<lparr>keys = [''label'', ''img''], allow_missing_keys = True, saver = ([], [])\<rparr> 0
          [[''img'' \<mapsto> ''a.nii'', ''seg'' \<mapsto> ''b.nii'', ''label'' \<mapsto> ''c.nii'']]) = Inr 1 \<and>
   snd (saver (snd (snd (SaveImaged_call (recording_saver log_saver)
          \<lparr>keys = [''label'', ''img''], allow_missing_keys = True, saver = ([], [])\<rparr> 0
          [[''img'' \<mapsto> ''a.nii'', ''seg'' \<mapsto> ''b.nii'', ''label'' \<mapsto> ''c.nii'']])))) = [''c.nii'', ''a.nii''] \<and>
   fst (LoadImaged_call (recording_loader suffix_loader)
          \<lparr>keys = [''label'', ''other'', ''img'', ''label''], allow_missing_keys = True,
           loader = (0, [])\<rparr> 0 None
          [[''img'' \<mapsto> ''a.nii'', ''seg'' \<mapsto> ''b.nii'', ''label'' \<mapsto> ''c.nii'']]) = Inr 1 \<and>
   map fst (snd (loader (snd (snd (LoadImaged_call (recording_loader suffix_loader)
          \<lparr>keys = [''label'', ''other'', ''img'', ''label''], allow_missing_keys = True,
           loader = (0, [])\<rparr> 0 None
          [[''img'' \<mapsto> ''a.nii'', ''seg'' \<mapsto> ''b.nii'', ''label'' \<mapsto> ''c.nii'']]))))) = [''c.nii'', ''a.nii'', ''c.nii#auto''] \<and>
   (fst (snd (LoadImaged_call (recording_loader suffix_loader)
          \<lparr>keys = [''label'', ''other'', ''img'', ''label''], allow_missing_keys = True,
           loader = (0, [])\<rparr> 0 None
          [[''img'' \<mapsto> ''a.nii'', ''seg'' \<mapsto> ''b.nii'', ''label'' \<mapsto> ''c.nii'']])) ! 1) ''label'' = Some ''c.nii#auto#auto'' \<and>
   (fst (snd (LoadImaged_call (recording_loader suffix_loader)
          \<lparr>keys = [''label'', ''other'', ''img'', ''label''], allow_missing_keys = True,
           loader = (0, [])\<rparr> 0 None
          [[''img'' \<mapsto> ''a.nii'', ''seg'' \<mapsto> ''b.nii'', ''label'' \<mapsto> ''c.nii'']])) ! 1) ''img'' = Some ''a.nii#auto'' \<and>
   (fst (snd (LoadImaged_call (recording_loader suffix_loader)
          \<lparr>keys = [''label'', ''other'', ''img'', ''label''], allow_missing_keys = True,
           loader = (0, [])\<rparr> 0 None
          [[''img'' \<mapsto> ''a.nii'', ''seg'' \<mapsto> ''b.nii'', ''label'' \<mapsto> ''c.nii'']])) ! 1) ''seg'' = Some ''b.nii'' \<and>
   (fst (snd (LoadImaged_loop suffix_loader True None 1 ([''label'', ''img''] @ [''label''])
          [[''img'' \<mapsto> ''a.nii'', ''seg'' \<mapsto> ''b.nii'', ''label'' \<mapsto> ''c.nii''],
           [''img'' \<mapsto> ''a.nii'', ''seg'' \<mapsto> ''b.nii'', ''label'' \<mapsto> ''c.nii'']] 0)) ! 1) ''label'' = Some ''c.nii#auto#auto'' \<and>
   snd (snd (LoadImaged_loop suffix_loader True None 1 ([''label'', ''img''] @ [''label''])
          [[''img'' \<mapsto> ''a.nii'', ''seg'' \<mapsto> ''b.nii'', ''label'' \<mapsto> ''c.nii''],
           [''img'' \<mapsto> ''a.nii'', ''seg'' \<mapsto> ''b.nii'', ''label'' \<mapsto> ''c.nii'']] 0)) = 3"
proof -
  let ?s = "(SaveImaged_call (recording_saver log_saver)
          \<lparr>keys = [''label'', ''img''], allow_missing_keys = True, saver = ([], [])\<rparr> 0
          [[''img'' \<mapsto> ''a.nii'', ''seg'' \<mapsto> ''b.nii'', ''label'' \<mapsto> ''c.nii'']])"
  let ?l = "(LoadImaged_call (recording_loader suffix_loader)
          \<lparr>keys = [''label'', ''other'', ''img'', ''label''], allow_missing_keys = True,
           loader = (0, [])\<rparr> 0 None
          [[''img'' \<mapsto> ''a.nii'', ''seg'' \<mapsto> ''b.nii'', ''label'' \<mapsto> ''c.nii'']])"
  have s: "?s = (Inr 1, fst (snd ?s), snd (snd ?s))"
    by (simp add: SaveImaged_call_def dict_copy_def key_iterator_def recording_saver_def log_saver_def)
  have l: "?l = (Inr 1, fst (snd ?l), snd (snd ?l))"
    by (simp add: LoadImaged_call_def dict_copy_def key_iterator_def recording_loader_def
        suffix_loader_def)
  have valid: "0 < length [[''img'' \<mapsto> ''a.nii'', ''seg'' \<mapsto> ''b.nii'', ''label'' \<mapsto> ''c.nii'']]" by simp
  have answers: "map snd (snd (loader (snd (snd ?l)))) =
      [Inr ''c.nii#auto'', Inr ''a.nii#auto'', Inr ''c.nii#auto#auto'']"
    by (simp add: LoadImaged_call_def dict_copy_def key_iterator_def recording_loader_def
        suffix_loader_def)
  from keys_processed_in_order [THEN conjunct2, THEN conjunct2, THEN conjunct2, THEN conjunct2,
      THEN conjunct1, rule_format, OF s]
  have "snd (saver (snd (snd ?s))) = [''c.nii'', ''a.nii'']"
    by (auto simp: map_filter_simps)
  moreover
  from keys_processed_in_order [THEN conjunct2, THEN conjunct2, THEN conjunct2, THEN conjunct2,
      THEN conjunct2, rule_format, OF valid l]
  have "map fst (snd (loader (snd (snd ?l)))) = [''c.nii'', ''a.nii'', ''c.nii#auto'']"
    using answers by auto
  moreover
  from keys_processed_in_order [THEN conjunct2, THEN conjunct1,
      of suffix_loader True None 1 "[''label'', ''img'']" "''label''"
         "[[''img'' \<mapsto> ''a.nii'', ''seg'' \<mapsto> ''b.nii'', ''label'' \<mapsto> ''c.nii''], [''img'' \<mapsto> ''a.nii'', ''seg'' \<mapsto> ''b.nii'', ''label'' \<mapsto> ''c.nii'']]" 0]
  have "(fst (snd (LoadImaged_loop suffix_loader True None 1 ([''label'', ''img''] @ [''label''])
          [[''img'' \<mapsto> ''a.nii'', ''seg'' \<mapsto> ''b.nii'', ''label'' \<mapsto> ''c.nii''],
           [''img'' \<mapsto> ''a.nii'', ''seg'' \<mapsto> ''b.nii'', ''label'' \<mapsto> ''c.nii'']] 0)) ! 1) ''label'' = Some ''c.nii#auto#auto'' \<and> snd (snd (LoadImaged_loop suffix_loader True None 1 ([''label'', ''img''] @ [''label''])
          [[''img'' \<mapsto> ''a.nii'', ''seg'' \<mapsto> ''b.nii'', ''label'' \<mapsto> ''c.nii''],
           [''img'' \<mapsto> ''a.nii'', ''seg'' \<mapsto> ''b.nii'', ''label'' \<mapsto> ''c.nii'']] 0)) = 3"
    by (simp add: key_iterator_def suffix_loader_def)
  moreover have "fst ?s = Inr 1" using s by (metis fst_conv)
  moreover have "fst ?l = Inr 1" using l by (metis fst_conv)
  moreover have "(fst (snd ?l) ! 1) ''label'' = Some ''c.nii#auto#auto''"
    "(fst (snd ?l) ! 1) ''img'' = Some ''a.nii#auto''" "(fst (snd ?l) ! 1) ''seg'' = Some ''b.nii''"
    by (simp_all add: LoadImaged_call_def dict_copy_def key_iterator_def recording_loader_def
        suffix_loader_def)
  ultimately show ?thesis by simp
qed

section \<open>The deprecated constructor arguments have no effect\<close>

text \<open>
  C10. \<open>meta_keys\<close>, \<open>meta_key_postfix\<close>, \<open>overwriting\<close> and \<open>image_only\<close> of
  \<open>LoadImaged.__init__\<close>, and \<open>meta_keys\<close> and \<open>meta_key_postfix\<close> of
  \<open>SaveImaged.__init__\<close>, are not handed to the wrapped transform or stored: two
  transforms constructed with all other arguments equal are the same object, and their
  \<open>__call__\<close> gives the same result on every input.
\<close>

theorem deprecated_arguments_unused:
  "LoadImaged_init LoadImage_init ks reader dt meta_keys meta_key_postfix overwriting image_only
      ensure_channel_first amk args kwargs =
   LoadImaged_init LoadImage_init ks reader dt meta_keys' meta_key_postfix' overwriting' image_only'
      ensure_channel_first amk args kwargs \<and>
   LoadImaged_call L
     (LoadImaged_init LoadImage_init ks reader dt meta_keys meta_key_postfix overwriting image_only
        ensure_channel_first amk args kwargs) data rd h =
   LoadImaged_call L
     (LoadImaged_init LoadImage_init ks reader dt meta_keys' meta_key_postfix' overwriting' image_only'
        ensure_channel_first amk args kwargs) data rd h \<and>
   SaveImaged_init SaveImage_init ks meta_keys meta_key_postfix out_dir out_postfix out_ext resamp
      md pad sc dt odt amk squeeze root sep plog fmt wr =
   SaveImaged_init SaveImage_init ks meta_keys' meta_key_postfix' out_dir out_postfix out_ext resamp
      md pad sc dt odt amk squeeze root sep plog fmt wr \<and>
   SaveImaged_call S
     (SaveImaged_init SaveImage_init ks meta_keys meta_key_postfix out_dir out_postfix out_ext resamp
        md pad sc dt odt amk squeeze root sep plog fmt wr) data h =
   SaveImaged_call S
     (SaveImaged_init SaveImage_init ks meta_keys' meta_key_postfix' out_dir out_postfix out_ext resamp
        md pad sc dt odt amk squeeze root sep plog fmt wr) data h"
  by (simp add: LoadImaged_init_def SaveImaged_init_def)


theorem deprecated_arguments_unused_witness:
  "LoadImaged_call suffix_loader
     (LoadImaged_init (\<lambda>reader dt ecf args kwargs. 0) [''img''] (None :: string option) ''float32''
        (Some [''img_meta'']) ''meta'' True True False False () ()) 0 None
     [[''img'' \<mapsto> ''a.nii'']] =
   LoadImaged_call suffix_loader
     (LoadImaged_init (\<lambda>reader dt ecf args kwargs. 0) [''img''] (None :: string option) ''float32''
        None ''meta_dict'' False False False False () ()) 0 None
     [[''img'' \<mapsto> ''a.nii'']]"
  by (rule deprecated_arguments_unused [THEN conjunct2, THEN conjunct1])

section \<open>Repeated calls\<close>




section \<open>A registered reader is preferred\<close>

text \<open>
  C9. Let \<open>reader\<close> support the input \<open>v\<close>. After \<open>register(reader)\<close> on the
  transform, the wrapped loader, called with no reader override, answers for \<open>v\<close> with
  what \<open>reader\<close> reads, whatever readers were registered before; and when a call of
  the transform with no reader override returns, the record's entry at a configured key
  (configured once) whose value was \<open>v\<close> holds what \<open>reader\<close> read from \<open>v\<close>.
\<close>

theorem registered_reader_preferred:
  assumes "verify_suffix reader v"
  shows "LoadImage_call (loader (LoadImaged_register LoadImage_register self reader)) v None =
           (read reader v, loader (LoadImaged_register LoadImage_register self reader)) \<and>
         (LoadImaged_call LoadImage_call (LoadImaged_register LoadImage_register self reader)
              data None h = (Inr d, h', self') \<longrightarrow>
            distinct (keys self) \<longrightarrow> key \<in> set (keys self) \<longrightarrow> (h ! data) key = Some v \<longrightarrow>
            (\<exists>v'. read reader v = Inr v' \<and> (h' ! d) key = Some v'))"
proof (intro conjI impI)
  let ?self = "LoadImaged_register LoadImage_register self reader"
  have ld: "loader ?self = LoadImage_register (loader self) reader"
    and ks: "keys ?self = keys self"
    by (simp_all add: LoadImaged_register_def)
  from assms show first: "LoadImage_call (loader ?self) v None = (read reader v, loader ?self)"
    unfolding ld by (rule LoadImage_call_registered)
  assume call: "LoadImaged_call LoadImage_call ?self data None h = (Inr d, h', self')"
    and dist: "distinct (keys self)" and key: "key \<in> set (keys self)"
    and v: "(h ! data) key = Some v"
  from call have valid: "data < length h"
    by (cases "data < length h") (simp_all add: LoadImaged_call_invalid)
  from LoadImaged_call_loop [OF call valid] ks obtain w' where
    loop: "LoadImaged_loop LoadImage_call (allow_missing_keys ?self) None (length h) (keys self)
             (h @ [h ! data]) (loader ?self) = (Inr d, h', w')"
    by auto
  from loop have d: "d = length h" by (rule LoadImaged_loop_ref)
  have pure: "\<forall>w u. snd (LoadImage_call w u None) = w"
    by (simp add: LoadImage_call_state)
  have "\<exists>v'. fst (LoadImage_call (loader ?self) v None) = Inr v' \<and> (h' ! length h) key = Some v'"
    using pure loop
  proof (rule LoadImaged_loop_value)
    show "length h < length (h @ [h ! data])" by simp
    from v show "((h @ [h ! data]) ! length h) key = Some v" by simp
  qed (fact dist key)+
  with first d show "\<exists>v'. read reader v = Inr v' \<and> (h' ! d) key = Some v'" by simp
qed


theorem registered_reader_preferred_witness:
  "verify_suffix (suffix_reader ''.nii'' ''custom'') ''a.nii'' \<and>
   fst (LoadImaged_call LoadImage_call
          (LoadImaged_register LoadImage_register
             \<lparr>keys = [''img''], allow_missing_keys = False,
              loader = \<lparr>readers = [suffix_reader ''.nii'' ''nibabel'', suffix_reader ''.png'' ''pil'']\<rparr>\<rparr>
             (suffix_reader ''.nii'' ''custom''))
          0 None [[''img'' \<mapsto> ''a.nii'']]) = Inr 1 \<and>
   (fst (snd (LoadImaged_call LoadImage_call
          (LoadImaged_register LoadImage_register
             \<lparr>keys = [''img''], allow_missing_keys = False,
              loader = \<lparr>readers = [suffix_reader ''.nii'' ''nibabel'', suffix_reader ''.png'' ''pil'']\<rparr>\<rparr>
             (suffix_reader ''.nii'' ''custom''))
          0 None [[''img'' \<mapsto> ''a.nii'']])) ! 1) ''img'' = Some ''a.nii#custom'' \<and>
   (fst (snd (LoadImaged_call LoadImage_call
          \<lparr>keys = [''img''], allow_missing_keys = False,
           loader = \<lparr>readers = [suffix_reader ''.nii'' ''nibabel'', suffix_reader ''.png'' ''pil'']\<rparr>\<rparr>
          0 None [[''img'' \<mapsto> ''a.nii'']])) ! 1) ''img'' = Some ''a.nii#nibabel''"
proof -
  let ?self = "\<lparr>keys = [''img''], allow_missing_keys = False,
      loader = \<lparr>readers = [suffix_reader ''.nii'' ''nibabel'', suffix_reader ''.png'' ''pil'']\<rparr>\<rparr>"
  let ?r = "suffix_reader ''.nii'' ''custom''"
  let ?c = "LoadImaged_call LoadImage_call (LoadImaged_register LoadImage_register ?self ?r)
      0 None [[''img'' \<mapsto> ''a.nii'']]"
  have sup: "verify_suffix ?r ''a.nii''"
    by (simp add: suffix_reader_def suffix_to_prefix)
  have c: "?c = (Inr 1, fst (snd ?c), snd (snd ?c))"
    by (simp add: LoadImaged_call_def LoadImaged_register_def LoadImage_register_def dict_copy_def
        key_iterator_def LoadImage_call_def suffix_reader_def suffix_to_prefix)
  have dist: "distinct (keys ?self)" and key: "''img'' \<in> set (keys ?self)"
    and v: "([[''img'' \<mapsto> ''a.nii'']] ! 0) ''img'' = Some ''a.nii''"
    by simp_all
  from registered_reader_preferred [OF sup, THEN conjunct2, rule_format, OF c dist key v]
  have "(fst (snd ?c) ! 1) ''img'' = Some ''a.nii#custom''"
    by (simp add: suffix_reader_def)
  moreover have "fst ?c = Inr 1" using c by (metis fst_conv)
  moreover have "(fst (snd (LoadImaged_call LoadImage_call ?self 0 None [[''img'' \<mapsto> ''a.nii'']])) ! 1)
      ''img'' = Some ''a.nii#nibabel''"
    by (simp add: LoadImaged_call_def dict_copy_def key_iterator_def LoadImage_call_def
        suffix_reader_def suffix_to_prefix)
  ultimately show ?thesis using sup by simp
qed

end
